theory Spec2Isabelle
  imports Main "HOL-Library.Sublist" "HOL-Library.Char_ord" "HOL-Library.List_Lexorder"
begin

section \<open>JavaScript values and strings\<close>

text \<open>
  The extension is TypeScript running on Node. Its strings are modelled as \<open>string\<close>
  (a list of 8-bit characters, read as the UTF-8 bytes of the text; every literal of the
  program that matters below is ASCII), and the values that \<open>JSON.parse\<close> produces as
  the datatype \<open>jsval\<close>. A number keeps its literal: no result below depends on the
  numeric value of a number, and floating point is not modelled.
\<close>

datatype jsval =
    JUndefined
  | JNull
  | JBool bool
  | JNum string
  | JStr string
  | JArr "jsval list"
  | JObj "(string \<times> jsval) list"

definition dquote :: char where
  "dquote = CHR 0x22"

definition backslash :: char where
  "backslash = CHR 0x5C"

definition is_digit :: "char \<Rightarrow> bool" where
  "is_digit c = (CHR ''0'' \<le> c \<and> c \<le> CHR ''9'')"

text \<open>The four white space characters of the JSON grammar: space, tab, LF, CR.\<close>

definition json_ws :: "char \<Rightarrow> bool" where
  "json_ws c = (c = CHR '' '' \<or> c = CHR 0x09 \<or> c = CHR 0x0A \<or> c = CHR 0x0D)"

definition skip_ws :: "string \<Rightarrow> string" where
  "skip_ws s = dropWhile json_ws s"

text \<open>
  White space removed by \<open>String.prototype.trim\<close>: the JSON white space, VT, FF and
  (as the byte A0) the no-break space. The other Unicode spaces are multi-byte in UTF-8
  and are not recognised by this model.
\<close>

definition js_space :: "char \<Rightarrow> bool" where
  "js_space c = (json_ws c \<or> c = CHR 0x0B \<or> c = CHR 0x0C \<or> c = CHR 0xA0)"

definition trim :: "string \<Rightarrow> string" where
  "trim s = rev (dropWhile js_space (rev (dropWhile js_space s)))"

text \<open>
  \<open>s.split(sep)\<close> for a string separator: the pieces between the leftmost,
  non-overlapping occurrences of \<open>sep\<close>; the empty separator splits into characters.
\<close>

fun split_from :: "string \<Rightarrow> string \<Rightarrow> string \<Rightarrow> string list" where
  "split_from sep cur [] = [rev cur]"
| "split_from sep cur (c # cs) =
     (if sep \<noteq> [] \<and> prefix sep (c # cs)
      then rev cur # split_from sep [] (drop (length sep - 1) cs)
      else split_from sep (c # cur) cs)"

definition split :: "string \<Rightarrow> string \<Rightarrow> string list" where
  "split s sep = (if sep = [] then map (\<lambda>c. [c]) s else split_from sep [] s)"

text \<open>Truthiness (\<open>ToBoolean\<close>). A number is falsy when its literal denotes zero.\<close>

definition num_is_zero :: "string \<Rightarrow> bool" where
  "num_is_zero lit =
     (\<forall>c \<in> set (takeWhile (\<lambda>c. c \<noteq> CHR ''e'' \<and> c \<noteq> CHR ''E'') lit). \<not> is_digit c \<or> c = CHR ''0'')"

fun truthy :: "jsval \<Rightarrow> bool" where
  "truthy JUndefined = False"
| "truthy JNull = False"
| "truthy (JBool b) = b"
| "truthy (JNum lit) = (\<not> num_is_zero lit)"
| "truthy (JStr s) = (s \<noteq> [])"
| "truthy (JArr xs) = True"
| "truthy (JObj ms) = True"

text \<open>
  Property access on a value that is neither \<open>null\<close> nor \<open>undefined\<close>. An object
  built by \<open>JSON.parse\<close> holds the last value given for a repeated key. The names read
  by this program (\<open>choices\<close>, \<open>delta\<close>, \<open>content\<close>) are no built-in property of a
  string, number, boolean or array, so they are \<open>undefined\<close> there.
\<close>

fun string_of_digit :: "nat \<Rightarrow> char" where
  "string_of_digit n = char_of (48 + n)"

fun string_of_nat :: "nat \<Rightarrow> string" where
  "string_of_nat n = (if n < 10 then [string_of_digit n]
     else string_of_nat (n div 10) @ [string_of_digit (n mod 10)])"

declare string_of_nat.simps [simp del]

fun js_prop :: "jsval \<Rightarrow> string \<Rightarrow> jsval" where
  "js_prop (JObj ms) k = (case map_of (rev ms) k of Some v \<Rightarrow> v | None \<Rightarrow> JUndefined)"
| "js_prop v k = JUndefined"

fun js_index :: "jsval \<Rightarrow> nat \<Rightarrow> jsval" where
  "js_index (JArr xs) i = (if i < length xs then xs ! i else JUndefined)"
| "js_index (JStr s) i = (if i < length s then JStr [s ! i] else JUndefined)"
| "js_index (JObj ms) i = js_prop (JObj ms) (string_of_nat i)"
| "js_index v i = JUndefined"

text \<open>Optional chaining: \<open>v?.k\<close> and \<open>v?.[i]\<close>.\<close>

definition opt_prop :: "jsval \<Rightarrow> string \<Rightarrow> jsval" where
  "opt_prop v k = (if v = JUndefined \<or> v = JNull then JUndefined else js_prop v k)"

definition opt_index :: "jsval \<Rightarrow> nat \<Rightarrow> jsval" where
  "opt_index v i = (if v = JUndefined \<or> v = JNull then JUndefined else js_index v i)"

section \<open>\<open>JSON.parse\<close>\<close>

text \<open>
  A recursive-descent parser for the JSON grammar (ECMA-404), as \<open>JSON.parse\<close>
  implements it: \<open>None\<close> is the \<open>SyntaxError\<close>. The recursion over nested values is
  bounded by a counter that \<open>json_parse\<close> sets from the length of the text.
\<close>

definition hexval :: "char \<Rightarrow> nat option" where
  "hexval c =
     (if CHR ''0'' \<le> c \<and> c \<le> CHR ''9'' then Some (of_char c - 48)
      else if CHR ''a'' \<le> c \<and> c \<le> CHR ''f'' then Some (of_char c - 87)
      else if CHR ''A'' \<le> c \<and> c \<le> CHR ''F'' then Some (of_char c - 55)
      else None)"

definition hex4 :: "char \<Rightarrow> char \<Rightarrow> char \<Rightarrow> char \<Rightarrow> nat option" where
  "hex4 a b c d =
     (case (hexval a, hexval b, hexval c, hexval d) of
        (Some w, Some x, Some y, Some z) \<Rightarrow> Some (((w * 16 + x) * 16 + y) * 16 + z)
      | _ \<Rightarrow> None)"

text \<open>
  The bytes of a \<open>\uXXXX\<close> escape: the UTF-8 encoding of the code unit (a surrogate
  is encoded on its own, in three bytes).
\<close>

definition utf8 :: "nat \<Rightarrow> string" where
  "utf8 n =
     (if n < 128 then [char_of n]
      else if n < 2048 then [char_of (192 + n div 64), char_of (128 + n mod 64)]
      else [char_of (224 + n div 4096), char_of (128 + (n div 64) mod 64),
            char_of (128 + n mod 64)])"

definition unescape :: "char \<Rightarrow> char option" where
  "unescape e =
     (if e = dquote then Some dquote
      else if e = backslash then Some backslash
      else if e = CHR ''/'' then Some (CHR ''/'')
      else if e = CHR ''b'' then Some (CHR 0x08)
      else if e = CHR ''f'' then Some (CHR 0x0C)
      else if e = CHR ''n'' then Some (CHR 0x0A)
      else if e = CHR ''r'' then Some (CHR 0x0D)
      else if e = CHR ''t'' then Some (CHR 0x09)
      else None)"

text \<open>The characters of a string literal, after its opening quote.\<close>

fun parse_chars :: "string \<Rightarrow> string \<Rightarrow> (string \<times> string) option" where
  "parse_chars acc [] = None"
| "parse_chars acc (c # cs) =
     (if c = dquote then Some (rev acc, cs)
      else if c = backslash then
        (case cs of
           [] \<Rightarrow> None
         | e # r \<Rightarrow>
             if e = CHR ''u'' then
               (case r of
                  h1 # h2 # h3 # h4 # r' \<Rightarrow>
                    (case hex4 h1 h2 h3 h4 of
                       None \<Rightarrow> None
                     | Some n \<Rightarrow> parse_chars (rev (utf8 n) @ acc) r')
                | _ \<Rightarrow> None)
             else
               (case unescape e of
                  None \<Rightarrow> None
                | Some d \<Rightarrow> parse_chars (d # acc) r))
      else if (of_char c :: nat) < 32 then None
      else parse_chars (c # acc) cs)"

text \<open>
  A number literal: \<open>-? (0 | [1-9][0-9]*) (. [0-9]+)? ([eE] [+-]? [0-9]+)?\<close>.
  The result is the literal and the rest of the text.
\<close>

definition parse_digits :: "string \<Rightarrow> (string \<times> string) option" where
  "parse_digits s =
     (let ds = takeWhile is_digit s in
      if ds = [] then None else Some (ds, dropWhile is_digit s))"

definition parse_int_part :: "string \<Rightarrow> (string \<times> string) option" where
  "parse_int_part s =
     (case s of
        [] \<Rightarrow> None
      | c # r \<Rightarrow> if c = CHR ''0'' then Some ([c], r) else parse_digits s)"

definition parse_frac :: "string \<Rightarrow> (string \<times> string) option" where
  "parse_frac s =
     (case s of
        [] \<Rightarrow> Some ([], s)
      | c # r \<Rightarrow>
          if c = CHR ''.'' then
            (case parse_digits r of None \<Rightarrow> None | Some (ds, r') \<Rightarrow> Some (c # ds, r'))
          else Some ([], s))"

definition parse_exp :: "string \<Rightarrow> (string \<times> string) option" where
  "parse_exp s =
     (case s of
        [] \<Rightarrow> Some ([], s)
      | c # r \<Rightarrow>
          if c = CHR ''e'' \<or> c = CHR ''E'' then
            (case r of
               [] \<Rightarrow> None
             | g # r1 \<Rightarrow>
                 if g = CHR ''+'' \<or> g = CHR ''-'' then
                   (case parse_digits r1 of
                      None \<Rightarrow> None
                    | Some (ds, r') \<Rightarrow> Some (c # g # ds, r'))
                 else
                   (case parse_digits r of
                      None \<Rightarrow> None
                    | Some (ds, r') \<Rightarrow> Some (c # ds, r')))
          else Some ([], s))"

definition parse_number :: "string \<Rightarrow> (jsval \<times> string) option" where
  "parse_number s =
     (let (sign, s1) = (case s of
                          [] \<Rightarrow> ([], s)
                        | c # r \<Rightarrow> if c = CHR ''-'' then ([c], r) else ([], s))
      in case parse_int_part s1 of
           None \<Rightarrow> None
         | Some (ip, s2) \<Rightarrow>
             (case parse_frac s2 of
                None \<Rightarrow> None
              | Some (fp, s3) \<Rightarrow>
                  (case parse_exp s3 of
                     None \<Rightarrow> None
                   | Some (ep, s4) \<Rightarrow> Some (JNum (sign @ ip @ fp @ ep), s4))))"

fun parse_value :: "nat \<Rightarrow> string \<Rightarrow> (jsval \<times> string) option"
  and parse_elems :: "nat \<Rightarrow> jsval list \<Rightarrow> string \<Rightarrow> (jsval \<times> string) option"
  and parse_members :: "nat \<Rightarrow> (string \<times> jsval) list \<Rightarrow> string \<Rightarrow> (jsval \<times> string) option"
where
  "parse_value 0 s = None"
| "parse_value (Suc n) s =
     (case skip_ws s of
        [] \<Rightarrow> None
      | c # r \<Rightarrow>
          if c = CHR ''['' then
            (case skip_ws r of
               [] \<Rightarrow> None
             | c2 # r2 \<Rightarrow> if c2 = CHR '']'' then Some (JArr [], r2) else parse_elems n [] r)
          else if c = CHR ''{'' then
            (case skip_ws r of
               [] \<Rightarrow> None
             | c2 # r2 \<Rightarrow> if c2 = CHR ''}'' then Some (JObj [], r2) else parse_members n [] r)
          else if c = dquote then
            (case parse_chars [] r of None \<Rightarrow> None | Some (str, r') \<Rightarrow> Some (JStr str, r'))
          else if prefix ''null'' (c # r) then Some (JNull, drop 3 r)
          else if prefix ''true'' (c # r) then Some (JBool True, drop 3 r)
          else if prefix ''false'' (c # r) then Some (JBool False, drop 4 r)
          else parse_number (c # r))"
| "parse_elems 0 acc s = None"
| "parse_elems (Suc n) acc s =
     (case parse_value n s of
        None \<Rightarrow> None
      | Some (v, r) \<Rightarrow>
          (case skip_ws r of
             [] \<Rightarrow> None
           | c # r' \<Rightarrow>
               if c = CHR '','' then parse_elems n (v # acc) r'
               else if c = CHR '']'' then Some (JArr (rev (v # acc)), r')
               else None))"
| "parse_members 0 acc s = None"
| "parse_members (Suc n) acc s =
     (case skip_ws s of
        [] \<Rightarrow> None
      | c # r \<Rightarrow>
          if c = dquote then
            (case parse_chars [] r of
               None \<Rightarrow> None
             | Some (k, r1) \<Rightarrow>
                 (case skip_ws r1 of
                    [] \<Rightarrow> None
                  | c1 # r2 \<Rightarrow>
                      if c1 = CHR '':'' then
                        (case parse_value n r2 of
                           None \<Rightarrow> None
                         | Some (v, r3) \<Rightarrow>
                             (case skip_ws r3 of
                                [] \<Rightarrow> None
                              | c3 # r4 \<Rightarrow>
                                  if c3 = CHR '','' then parse_members n ((k, v) # acc) r4
                                  else if c3 = CHR ''}'' then
                                    Some (JObj (rev ((k, v) # acc)), r4)
                                  else None))
                      else None))
          else None)"

text \<open>
  \<open>JSON.parse(text)\<close>: one value, with nothing but white space after it. The counter
  starts at \<open>2 * length text + 2\<close>: a call of \<open>parse_value\<close> on a text of length \<open>k\<close>
  is given at least \<open>2 * k + 2\<close>, and a call of \<open>parse_elems\<close> or \<open>parse_members\<close> at
  least \<open>2 * k + 3\<close>, since a value and the separator after it take two characters. No
  larger counter changes a result (\<open>json_parse_any_bound\<close> below).
\<close>

definition json_parse :: "string \<Rightarrow> jsval option" where
  "json_parse s =
     (case parse_value (2 * length s + 2) s of
        None \<Rightarrow> None
      | Some (v, r) \<Rightarrow> if skip_ws r = [] then Some v else None)"


section \<open>The stream relay (\<open>handleChatRequest\<close>)\<close>

text \<open>
  The messages posted to the webview by \<open>handleChatRequest\<close>. The \<open>chunk\<close> of a
  \<open>chatChunk\<close> is whatever truthy value the frame holds at \<open>choices[0].delta.content\<close>.
  Calls of \<open>console.error\<close> post nothing and are left out of the trace.
\<close>

datatype chat_message = ChatChunk jsval | ChatError string | ChatEnd

text \<open>
  The body of the \<open>forEach\<close> callback for one frame \<open>l\<close>. The \<open>[DONE]\<close> sentinel
  returns from the callback; a \<open>SyntaxError\<close> of \<open>JSON.parse\<close> and the \<open>TypeError\<close>
  of reading \<open>choices\<close> of \<open>null\<close> are caught inside it.
\<close>

definition frame_messages :: "string \<Rightarrow> chat_message list" where
  "frame_messages l =
     (let jsonStr = drop 5 l in
      if trim jsonStr = ''[DONE]'' then []
      else
        (case json_parse jsonStr of
           None \<Rightarrow> []
         | Some parsed \<Rightarrow>
             if parsed = JNull then []
             else
               (let content =
                      opt_prop (opt_prop (opt_index (js_prop parsed ''choices'') 0) ''delta'')
                        ''content''
                in if truthy content then [ChatChunk content] else [])))"

text \<open>
  One iteration of the read loop, on the decoded text of one read:
  \<open>decoder.decode(value).split('\n\n').filter(l => l.startsWith('data: ')).forEach(...)\<close>.
  Nothing is kept from one read to the next.
\<close>

definition chunk_messages :: "string \<Rightarrow> chat_message list" where
  "chunk_messages text =
     concat (map frame_messages
       (filter (prefix ''data: '') (split text ''\<newline>\<newline>'')))"

text \<open>
  The network, as the handler sees it: \<open>fetch\<close> rejects with a message or resolves to a
  response; the body of a response is the finite sequence of texts that \<open>reader.read()\<close>
  returns, ended by \<open>done\<close> or by a rejected read. \<open>response.ok\<close> is a status from 200
  to 299.
\<close>

datatype read_end = StreamDone | ReadFailed string

record http_response =
  status :: nat
  body :: "(string list \<times> read_end) option"

datatype fetch_outcome = FetchRejected string | FetchResolved http_response

definition ok :: "http_response \<Rightarrow> bool" where
  "ok r = (200 \<le> status r \<and> status r \<le> 299)"

text \<open>The \<open>while (true)\<close> loop: the messages posted, and the error thrown out of it if any.\<close>

fun read_loop :: "string list \<Rightarrow> read_end \<Rightarrow> chat_message list \<times> string option" where
  "read_loop [] StreamDone = ([], None)"
| "read_loop [] (ReadFailed e) = ([], Some e)"
| "read_loop (v # vs) fin =
     (let (ms, thrown) = read_loop vs fin in (chunk_messages v @ ms, thrown))"

text \<open>The \<open>try\<close> block.\<close>

definition try_request :: "fetch_outcome \<Rightarrow> chat_message list \<times> string option" where
  "try_request outcome =
     (case outcome of
        FetchRejected e \<Rightarrow> ([], Some e)
      | FetchResolved response \<Rightarrow>
          (case body response of
             None \<Rightarrow> ([], Some (''API error: '' @ string_of_nat (status response)))
           | Some (reads, fin) \<Rightarrow>
               if \<not> ok response
               then ([], Some (''API error: '' @ string_of_nat (status response)))
               else read_loop reads fin))"

text \<open>
  \<open>handleChatRequest\<close>: \<open>host\<close> is the configured \<open>lollms.host\<close> (\<open>None\<close> for
  \<open>undefined\<close>). With no host, nothing is requested and the handler returns after the
  one \<open>chatError\<close>.
\<close>

definition handleChatRequest :: "string option \<Rightarrow> fetch_outcome \<Rightarrow> chat_message list" where
  "handleChatRequest host outcome =
     (if host = None \<or> host = Some [] then [ChatError ''Lollms host not configured.'']
      else
        (let (ms, thrown) = try_request outcome in
         ms @ (case thrown of None \<Rightarrow> [] | Some e \<Rightarrow> [ChatError e]) @ [ChatEnd]))"

text \<open>The response body of the stream test: one content frame and the sentinel frame.\<close>

definition hi_frame :: string where
  \<open>hi_frame = ''data: {"choices":[{"delta":{"content":"Hi"}}]}''\<close>

definition done_tail :: string where
  \<open>done_tail = ''\<newline>\<newline>data: [DONE]\<newline>\<newline>''\<close>

definition sse_body :: string where
  "sse_body = hi_frame @ done_tail"

section \<open>Paths and URIs\<close>

text \<open>
  Every URI of the program is a \<open>file:\<close> URI of a normalised absolute POSIX path. Such
  a path is modelled as the list of its segments, the empty list being the root \<open>/\<close>;
  \<open>path.dirname\<close>, \<open>path.basename\<close>, \<open>Uri.joinPath\<close> with one name and
  \<open>path.relative\<close> are then the list operations below (the relative path is kept as
  the list of the parts that \<open>split(path.sep)\<close> returns). \<open>Uri.file(p).toString()\<close>
  and \<open>uri.toString()\<close> both give \<open>uri_toString\<close>; percent-encoding of special
  characters is left out.
\<close>

type_synonym path = "string list"

definition dirname :: "path \<Rightarrow> path" where
  "dirname p = butlast p"

definition basename :: "path \<Rightarrow> string" where
  "basename p = (if p = [] then [] else last p)"

definition joinPath :: "path \<Rightarrow> string \<Rightarrow> path" where
  "joinPath p name = p @ [name]"

definition relative :: "path \<Rightarrow> path \<Rightarrow> path" where
  "relative from to =
     (let c = length (longest_common_prefix from to)
      in replicate (length from - c) ''..'' @ drop c to)"

definition fsPath :: "path \<Rightarrow> string" where
  "fsPath p = (if p = [] then ''/'' else concat (map ((#) (CHR ''/'')) p))"

definition uri_toString :: "path \<Rightarrow> string" where
  "uri_toString p = ''file://'' @ fsPath p"

section \<open>\<open>Map\<close> and \<open>JSON.stringify\<close>\<close>

text \<open>
  A \<open>Map\<close> is the list of its entries in insertion order. Keys are compared by
  SameValueZero: an array or an object is equal to no other key (every one that reaches the
  map was built afresh by \<open>JSON.parse\<close>), and numbers are compared by their literals.
\<close>

type_synonym js_map = "(jsval \<times> jsval) list"

fun same_value_zero :: "jsval \<Rightarrow> jsval \<Rightarrow> bool" where
  "same_value_zero (JArr xs) v = False"
| "same_value_zero (JObj ms) v = False"
| "same_value_zero u v = (u = v)"

fun map_get :: "js_map \<Rightarrow> jsval \<Rightarrow> jsval" where
  "map_get [] k = JUndefined"
| "map_get ((k', v) # m) k = (if same_value_zero k' k then v else map_get m k)"

fun map_set :: "js_map \<Rightarrow> jsval \<Rightarrow> jsval \<Rightarrow> js_map" where
  "map_set [] k v = [(k, v)]"
| "map_set ((k', v') # m) k v =
     (if same_value_zero k' k then (k', v) # m else (k', v') # map_set m k v)"

definition map_delete :: "js_map \<Rightarrow> jsval \<Rightarrow> js_map" where
  "map_delete m k = filter (\<lambda>(k', v). \<not> same_value_zero k' k) m"

text \<open>
  \<open>new Map(iterable)\<close>; \<open>None\<close> is the \<open>TypeError\<close> of a value that cannot be
  iterated or of an item that is not an object.
\<close>

fun entry_of :: "jsval \<Rightarrow> (jsval \<times> jsval) option" where
  "entry_of (JArr xs) = Some (js_index (JArr xs) 0, js_index (JArr xs) 1)"
| "entry_of (JObj ms) = Some (js_index (JObj ms) 0, js_index (JObj ms) 1)"
| "entry_of v = None"

fun add_entries :: "js_map \<Rightarrow> jsval list \<Rightarrow> js_map option" where
  "add_entries m [] = Some m"
| "add_entries m (e # es) =
     (case entry_of e of None \<Rightarrow> None | Some (k, v) \<Rightarrow> add_entries (map_set m k v) es)"

fun new_Map :: "jsval \<Rightarrow> js_map option" where
  "new_Map JUndefined = Some []"
| "new_Map JNull = Some []"
| "new_Map (JArr es) = add_entries [] es"
| "new_Map (JStr s) = (if s = [] then Some [] else None)"
| "new_Map v = None"

text \<open>\<open>Array.from(map.entries())\<close>.\<close>

definition entries :: "js_map \<Rightarrow> jsval" where
  "entries m = JArr (map (\<lambda>(k, v). JArr [k, v]) m)"

text \<open>
  \<open>JSON.stringify\<close> without indentation. A string is quoted with the escapes of
  \<open>QuoteJSONString\<close>. For a number the literal is printed and for an object its members
  as parsed; the maps that \<open>setState\<close> builds hold strings only.
\<close>

definition hexdigit :: "nat \<Rightarrow> char" where
  "hexdigit n = ''0123456789abcdef'' ! n"

definition escape_char :: "char \<Rightarrow> string" where
  "escape_char c =
     (if c = dquote then [backslash, dquote]
      else if c = backslash then [backslash, backslash]
      else if c = CHR 0x08 then [backslash, CHR ''b'']
      else if c = CHR 0x0C then [backslash, CHR ''f'']
      else if c = CHR 0x0A then [backslash, CHR ''n'']
      else if c = CHR 0x0D then [backslash, CHR ''r'']
      else if c = CHR 0x09 then [backslash, CHR ''t'']
      else if (of_char c :: nat) < 32 then
        [backslash, CHR ''u'', CHR ''0'', CHR ''0'',
         hexdigit (of_char c div 16), hexdigit (of_char c mod 16)]
      else [c])"

definition quote :: "string \<Rightarrow> string" where
  "quote s = dquote # concat (map escape_char s) @ [dquote]"

fun join :: "string \<Rightarrow> string list \<Rightarrow> string" where
  "join sep [] = []"
| "join sep [x] = x"
| "join sep (x # y # ys) = x @ sep @ join sep (y # ys)"

fun stringify :: "jsval \<Rightarrow> string" where
  "stringify JUndefined = ''null''"
| "stringify JNull = ''null''"
| "stringify (JBool b) = (if b then ''true'' else ''false'')"
| "stringify (JNum lit) = lit"
| "stringify (JStr s) = quote s"
| "stringify (JArr xs) = ''['' @ join '','' (map stringify xs) @ '']''"
| "stringify (JObj ms) =
     ''{'' @ join '','' (map (\<lambda>(k, v). quote k @ '':'' @ stringify v) ms) @ ''}''"

section \<open>The file system\<close>

text \<open>
  What \<open>vscode.workspace.fs\<close> and Node's \<open>fs\<close> answer: \<open>None\<close> is a rejected or
  throwing call. The type of \<open>stat\<close> follows symbolic links and keeps the link bit:
  \<open>LinkToFile\<close> is \<open>SymbolicLink | File\<close>, \<open>LinkToDirectory\<close> is
  \<open>SymbolicLink | Directory\<close>, and neither is equal to \<open>File\<close> or \<open>Directory\<close>.
  \<open>writable\<close> says whether creating or writing the path is permitted.
\<close>

datatype FileType = Unknown | File | Directory | SymbolicLink | LinkToFile | LinkToDirectory

definition is_file :: "FileType \<Rightarrow> bool" where
  "is_file t = (t = File \<or> t = LinkToFile)"

definition is_directory :: "FileType \<Rightarrow> bool" where
  "is_directory t = (t = Directory \<or> t = LinkToDirectory)"

record filesystem =
  stat :: "path \<Rightarrow> FileType option"
  readDirectory :: "path \<Rightarrow> string list option"
  readFile :: "path \<Rightarrow> string option"
  writable :: "path \<Rightarrow> bool"

definition existsSync :: "filesystem \<Rightarrow> path \<Rightarrow> bool" where
  "existsSync fs p = (stat fs p \<noteq> None)"

text \<open>A new name in the listing of its parent directory.\<close>

definition link_name :: "filesystem \<Rightarrow> path \<Rightarrow> filesystem" where
  "link_name fs p =
     (if p = [] then fs
      else fs\<lparr>readDirectory := (readDirectory fs)
             (butlast p := map_option (\<lambda>names. if last p \<in> set names then names
                                                  else names @ [last p])
                             (readDirectory fs (butlast p)))\<rparr>)"

text \<open>
  \<open>fs.mkdirSync(dir, { recursive: true })\<close>: every missing directory on the way to
  \<open>dir\<close> is created, from the root down.
\<close>

definition ensure_dir :: "path \<Rightarrow> filesystem option \<Rightarrow> filesystem option" where
  "ensure_dir q r =
     (case r of
        None \<Rightarrow> None
      | Some fs \<Rightarrow>
          (case stat fs q of
             Some t \<Rightarrow> if is_directory t then Some fs else None
           | None \<Rightarrow>
               if writable fs q
               then Some (link_name (fs\<lparr>stat := (stat fs)(q \<mapsto> Directory),
                                        readDirectory := (readDirectory fs)(q \<mapsto> [])\<rparr>) q)
               else None))"

definition mkdirSync :: "filesystem \<Rightarrow> path \<Rightarrow> filesystem option" where
  "mkdirSync fs dir = fold ensure_dir (prefixes dir) (Some fs)"

text \<open>
  \<open>writeFile\<close>: the parent must be a directory and the path a file or absent; a file
  that exists keeps its type.
\<close>

definition writeFile :: "filesystem \<Rightarrow> path \<Rightarrow> string \<Rightarrow> filesystem option" where
  "writeFile fs p data =
     (if p \<noteq> [] \<and> writable fs p
         \<and> (case stat fs (butlast p) of None \<Rightarrow> False | Some t \<Rightarrow> is_directory t)
         \<and> (case stat fs p of None \<Rightarrow> True | Some t \<Rightarrow> is_file t)
      then Some (link_name (fs\<lparr>stat := (stat fs)(p := Some (case stat fs p of
                                                                  None \<Rightarrow> File
                                                                | Some t \<Rightarrow> t)),
                               readFile := (readFile fs)(p \<mapsto> data)\<rparr>) p)
      else None)"

text \<open>
  \<open>getAllFileUris\<close>. A failing \<open>stat\<close> or \<open>readDirectory\<close> is caught and the URI
  skipped. The counter bounds the depth of the recursion into directories; \<open>None\<close> is a
  walk that does not return within it.
\<close>

fun getAllFileUris :: "nat \<Rightarrow> filesystem \<Rightarrow> path list \<Rightarrow> path list option" where
  "getAllFileUris n fs [] = Some []"
| "getAllFileUris n fs (uri # uris) =
     (case stat fs uri of
        Some File \<Rightarrow> map_option ((#) uri) (getAllFileUris n fs uris)
      | Some Directory \<Rightarrow>
          (case readDirectory fs uri of
             None \<Rightarrow> getAllFileUris n fs uris
           | Some filesInDir \<Rightarrow>
               (case n of
                  0 \<Rightarrow> None
                | Suc k \<Rightarrow>
                    (case getAllFileUris k fs (map (joinPath uri) filesInDir) of
                       None \<Rightarrow> None
                     | Some nested \<Rightarrow> map_option ((@) nested) (getAllFileUris n fs uris))))
      | _ \<Rightarrow> getAllFileUris n fs uris)"

section \<open>\<open>ContextStateManager\<close>\<close>

text \<open>
  The state of the manager and of what it acts on: the map \<open>_fileStates\<close>, the path of
  the state file (\<open>None\<close> without a workspace folder), the file system, the path sets
  fired through \<open>_onDidChange\<close> and the error messages shown to the user, both in order.
\<close>

record world =
  fileStates :: js_map
  stateFilePath :: "path option"
  disk :: filesystem
  fired :: "path list list"
  shown :: "string list"

datatype FileState = FullContent | Signatures | Excluded | TreeOnly

fun tag :: "FileState \<Rightarrow> string" where
  "tag FullContent = ''fullContent''"
| "tag Signatures = ''signatures''"
| "tag Excluded = ''excluded''"
| "tag TreeOnly = ''treeOnly''"

definition key :: "path \<Rightarrow> jsval" where
  "key uri = JStr (uri_toString uri)"

text \<open>The \<open>while\<close> loop of \<open>getState\<close>: is a directory above \<open>currentPath\<close> excluded?\<close>

function excluded_above :: "js_map \<Rightarrow> path \<Rightarrow> bool" where
  "excluded_above m currentPath =
     (let parentPath = dirname currentPath in
      if parentPath \<noteq> currentPath then
        (if map_get m (key parentPath) = JStr ''excluded'' then True
         else excluded_above m parentPath)
      else False)"
  by pat_completeness auto
termination
  by (relation "measure (\<lambda>(m, p). length p)") (auto simp: dirname_def butlast_conv_take)

declare excluded_above.simps [simp del]

definition getState :: "js_map \<Rightarrow> path \<Rightarrow> jsval" where
  "getState m uri =
     (if map_get m (key uri) = JStr ''excluded'' then JStr ''excluded''
      else if excluded_above m uri then JStr ''excluded''
      else (let own = map_get m (key uri) in
            if truthy own then own else JStr ''treeOnly''))"

text \<open>\<open>saveState\<close>: the \<open>try\<close> block either leaves the new file system or has thrown.\<close>

definition try_save :: "filesystem \<Rightarrow> path \<Rightarrow> string \<Rightarrow> filesystem option" where
  "try_save fs p data =
     (let dir = dirname p in
      if \<not> existsSync fs dir then
        (case mkdirSync fs dir of None \<Rightarrow> None | Some fs' \<Rightarrow> writeFile fs' p data)
      else writeFile fs p data)"

definition saveState :: "world \<Rightarrow> world" where
  "saveState w =
     (case stateFilePath w of
        None \<Rightarrow> w
      | Some p \<Rightarrow>
          (case try_save (disk w) p (stringify (entries (fileStates w))) of
             None \<Rightarrow> w\<lparr>shown := shown w @ [''Lollms: Failed to save context state.'']\<rparr>
           | Some fs' \<Rightarrow> w\<lparr>disk := fs'\<rparr>))"

definition load_failed :: "world \<Rightarrow> world" where
  "load_failed w =
     w\<lparr>fileStates := [],
       shown := shown w @ [''Lollms: Could not load context state from .lollms folder.'']\<rparr>"

definition loadState :: "world \<Rightarrow> world" where
  "loadState w =
     (case stateFilePath w of
        None \<Rightarrow> w
      | Some p \<Rightarrow>
          if \<not> existsSync (disk w) p then w
          else
            (case readFile (disk w) p of
               None \<Rightarrow> load_failed w
             | Some text \<Rightarrow>
                 (case json_parse text of
                    None \<Rightarrow> load_failed w
                  | Some parsed \<Rightarrow>
                      (case new_Map parsed of
                         None \<Rightarrow> load_failed w
                       | Some m \<Rightarrow> w\<lparr>fileStates := m, fired := fired w @ [ []]\<rparr>))))"

text \<open>The body of the \<open>forEach\<close> of \<open>setState\<close>, for one file.\<close>

definition apply_state :: "FileState \<Rightarrow> path \<Rightarrow> js_map \<Rightarrow> js_map" where
  "apply_state state uri m =
     (if state = TreeOnly then map_delete m (key uri)
      else map_set m (key uri) (JStr (tag state)))"

definition setState :: "nat \<Rightarrow> world \<Rightarrow> path list \<Rightarrow> FileState \<Rightarrow> world option" where
  "setState n w uris state =
     (case getAllFileUris n (disk w) uris of
        None \<Rightarrow> None
      | Some allFileUris \<Rightarrow>
          (let w1 = saveState (w\<lparr>fileStates := fold (apply_state state) allFileUris (fileStates w)\<rparr>)
           in Some (w1\<lparr>fired := fired w1 @ [allFileUris]\<rparr>)))"

definition cycleState :: "nat \<Rightarrow> world \<Rightarrow> path \<Rightarrow> world option" where
  "cycleState n w uri =
     (let currentState = map_get (fileStates w) (key uri);
          nextState = (if currentState = JStr ''fullContent'' then Signatures
                       else if currentState = JStr ''signatures'' then TreeOnly
                       else FullContent)
      in setState n w [uri] nextState)"

section \<open>The context document\<close>

text \<open>
  The object \<open>tree\<close> of \<open>generateMarkdownTreeFromUris\<close>: an object whose own keys each
  hold such an object. The list keeps the keys in the order of their insertion;
  \<open>buildLines\<close> sorts them before it reads them.
\<close>

datatype FileTree = Level "(string \<times> FileTree) list"

fun members :: "FileTree \<Rightarrow> (string \<times> FileTree) list" where
  "members (Level ms) = ms"

text \<open>
  The objects are made by \<open>{}\<close>, so a lookup \<open>level[part]\<close> that finds no own key goes
  on to \<open>Object.prototype\<close>. In a runtime that nothing has altered the names found
  there are the following ones.
\<close>

definition object_prototype_names :: "string list" where
  "object_prototype_names =
     [''constructor'', ''__defineGetter__'', ''__defineSetter__'', ''hasOwnProperty'',
      ''__lookupGetter__'', ''__lookupSetter__'', ''isPrototypeOf'', ''propertyIsEnumerable'',
      ''toString'', ''valueOf'', ''__proto__'', ''toLocaleString'']"

definition pristine :: "string \<Rightarrow> bool" where
  "pristine name = (name \<in> set object_prototype_names)"

text \<open>The assignment \<open>level[part] = sub\<close> of an object to an own key, old or new.\<close>

fun set_member :: "string \<Rightarrow> FileTree \<Rightarrow> (string \<times> FileTree) list \<Rightarrow> (string \<times> FileTree) list" where
  "set_member part sub [] = [(part, sub)]"
| "set_member part sub ((k, t) # ms) =
     (if k = part then (k, sub) # ms else (k, t) # set_member part sub ms)"

text \<open>
  \<open>parts.reduce((level, part) => (level[part] = level[part] || {}), tree)\<close>. The
  predicate \<open>inherited\<close> holds of the names that a lookup on a fresh object finds at
  the time of the call: those of \<open>object_prototype_names\<close>, and every name that
  has been written to \<open>Object.prototype\<close> since. When \<open>part\<close> is an own key of
  \<open>level\<close>, the walk goes on in the object of that key. When it is not, and is not
  inherited either, \<open>level[part]\<close> is \<open>undefined\<close>, and the walk goes on in a new
  object, which becomes the last own key of \<open>level\<close>. When it is inherited,
  \<open>level[part] || {}\<close> is the inherited value: the global \<open>Object\<close> for \<open>constructor\<close>,
  \<open>Object.prototype\<close> itself for \<open>__proto__\<close>, a built-in function for the others. The
  rest of the path is then written into that object, which every later call shares, and
  what \<open>buildLines\<close> finds there depends on all the earlier calls. That outcome is
  \<open>None\<close>: the object built is then not a tree of this call's paths.
\<close>

fun insert_parts :: "(string \<Rightarrow> bool) \<Rightarrow> string list \<Rightarrow> FileTree \<Rightarrow> FileTree option" where
  "insert_parts inherited [] level = Some level"
| "insert_parts inherited (part # parts) (Level ms) =
     (case map_of ms part of
        None \<Rightarrow>
          if inherited part then None
          else (case insert_parts inherited parts (Level []) of
                  None \<Rightarrow> None
                | Some sub \<Rightarrow> Some (Level (set_member part sub ms)))
      | Some sub \<Rightarrow>
          (case insert_parts inherited parts sub of
             None \<Rightarrow> None
           | Some sub' \<Rightarrow> Some (Level (set_member part sub' ms))))"

text \<open>The loop \<open>uris.forEach\<close> over the object \<open>tree\<close>, which starts as \<open>{}\<close>.\<close>

definition build_tree :: "(string \<Rightarrow> bool) \<Rightarrow> path list \<Rightarrow> path \<Rightarrow> FileTree option" where
  "build_tree inherited uris rootUri =
     fold (\<lambda>uri result.
             case result of
               None \<Rightarrow> None
             | Some tree \<Rightarrow>
                 (let relativePath = relative rootUri uri in
                  if relativePath \<noteq> [] then insert_parts inherited relativePath tree
                  else Some tree))
       uris (Some (Level []))"

text \<open>The glyphs of the tree, as their UTF-8 bytes.\<close>

definition folder_icon :: string where
  "folder_icon = [CHR 0xF0, CHR 0x9F, CHR 0x93, CHR 0x81]"

definition file_icon :: string where
  "file_icon = [CHR 0xF0, CHR 0x9F, CHR 0x93, CHR 0x84]"

definition last_prefix :: string where
  "last_prefix = [CHR 0xE2, CHR 0x94, CHR 0x94, CHR 0xE2, CHR 0x94, CHR 0x80, CHR '' '']"

definition mid_prefix :: string where
  "mid_prefix = [CHR 0xE2, CHR 0x94, CHR 0x9C, CHR 0xE2, CHR 0x94, CHR 0x80, CHR '' '']"

definition bar_indent :: string where
  "bar_indent = [CHR 0xE2, CHR 0x94, CHR 0x82, CHR '' '', CHR '' '']"

definition badge :: "jsval \<Rightarrow> string" where
  "badge state =
     (if state = JStr ''fullContent'' then '' [+]''
      else if state = JStr ''signatures'' then '' [S]''
      else [])"

text \<open>
  \<open>buildLines\<close>. \<open>Object.keys(level).sort()\<close> orders the keys as strings, by their
  code units (here: bytes); \<open>level[entry]\<close> is the member of that key.
\<close>

function buildLines :: "js_map \<Rightarrow> FileTree \<Rightarrow> path \<Rightarrow> string list" where
  "buildLines m level currentPath =
     (let entries = sort (map fst (members level)) in
      concat (map (\<lambda>(i, entry).
          (case map_of (members level) entry of
             None \<Rightarrow> []
           | Some sub \<Rightarrow>
               (let uri = joinPath currentPath entry;
                    state = getState m uri;
                    isLast = (i = length entries - 1);
                    newPrefix = (if isLast then last_prefix else mid_prefix);
                    isDir = (members sub \<noteq> []);
                    subLines = (if isDir then buildLines m sub uri else []);
                    icon = (if isDir then folder_icon else file_icon)
                in (newPrefix @ icon @ '' '' @ entry @ badge state)
                   # map (\<lambda>s. (if isLast then ''   '' else bar_indent) @ s) subLines)))
        (enumerate 0 entries)))"
  by pat_completeness auto
termination
proof (relation "measure (\<lambda>(m, level, p). size level)")
  show "wf (measure (\<lambda>(m, level, p). size level))" by simp
next
  fix m :: js_map and level :: FileTree and currentPath :: path
    and entries x i entry sub uri state isLast newPrefix isDir
  assume "map_of (members level) entry = Some sub"
  then have "(entry, sub) \<in> set (members level)" by (rule map_of_SomeD)
  then have "size sub < size level"
    by (cases level) (auto simp: less_Suc_eq_le dest!: size_list_estimation'
          [where f = "size_prod (\<lambda>x. 0) size" and y = "size sub"])
  then show "((m, sub, uri), (m, level, currentPath)) \<in> measure (\<lambda>(m, level, p). size level)"
    by simp
qed

declare buildLines.simps [simp del]

text \<open>The first truthy string of \<open>a || b || c\<close>.\<close>

definition rootName :: "path \<Rightarrow> string option \<Rightarrow> string" where
  "rootName rootUri workspaceName =
     (if basename rootUri \<noteq> [] then basename rootUri
      else (case workspaceName of
              None \<Rightarrow> ''Project''
            | Some name \<Rightarrow> if name \<noteq> [] then name else ''Project''))"

text \<open>
  \<open>generateMarkdownTreeFromUris\<close>; \<open>None\<close> when \<open>reduce\<close> has left the tree for an
  inherited object.
\<close>

definition generateMarkdownTreeFromUris ::
    "(string \<Rightarrow> bool) \<Rightarrow> js_map \<Rightarrow> string option \<Rightarrow> path list \<Rightarrow> path \<Rightarrow> string option" where
  "generateMarkdownTreeFromUris inherited m workspaceName uris rootUri =
     (case build_tree inherited uris rootUri of
        None \<Rightarrow> None
      | Some tree \<Rightarrow>
          Some (join ''\<newline>''
            ((folder_icon @ '' '' @ rootName rootUri workspaceName @ ''/'')
             # buildLines m tree rootUri)))"









section \<open>Notions used to state the properties\<close>

text \<open>
  A path whose segments are file names: not empty and without a slash. On such paths
  \<open>uri_toString\<close> is injective.
\<close>

definition valid_path :: "path \<Rightarrow> bool" where
  "valid_path p = (\<forall>s \<in> set p. s \<noteq> [] \<and> CHR ''/'' \<notin> set s)"




text \<open>A map whose keys and values are all strings, as \<open>setState\<close> builds it.\<close>

fun is_str :: "jsval \<Rightarrow> bool" where
  "is_str (JStr s) = True"
| "is_str v = False"

definition string_map :: "js_map \<Rightarrow> bool" where
  "string_map m = list_all (\<lambda>(k, v). is_str k \<and> is_str v) m"

text \<open>The entry \<open>[k, v]\<close> of two strings.\<close>

definition pair_of :: "string \<times> string \<Rightarrow> jsval" where
  "pair_of kv = JArr [JStr (fst kv), JStr (snd kv)]"



section \<open>Example worlds\<close>

text \<open>
  A small workspace \<open>/w\<close> with the files \<open>a.txt\<close> and \<open>b/c.txt\<close> and an empty
  directory \<open>.lollms\<close>; the same workspace with a state file of a given text; and with
  two policies set.
\<close>

definition state_path :: path where
  "state_path = [''w'', ''.lollms'', ''context_state.json'']"

definition demo_fs :: filesystem where
  "demo_fs = \<lparr>stat = map_of [([''w''], Directory), ([''w'', ''.lollms''], Directory),
                 ([''w'', ''a.txt''], File), ([''w'', ''b''], Directory),
                 ([''w'', ''b'', ''c.txt''], File)],
     readDirectory = map_of [([''w''], [''.lollms'', ''a.txt'', ''b'']),
                 ([''w'', ''.lollms''], []), ([''w'', ''b''], [''c.txt''])],
     readFile = map_of [([''w'', ''a.txt''], ''alpha''), ([''w'', ''b'', ''c.txt''], ''gamma'')],
     writable = (\<lambda>p. True)\<rparr>"

definition demo_world :: world where
  "demo_world = \<lparr>fileStates = [], stateFilePath = Some state_path, disk = demo_fs,
     fired = [], shown = []\<rparr>"

definition with_state_file :: "string \<Rightarrow> world" where
  "with_state_file text =
     demo_world\<lparr>disk := demo_fs\<lparr>stat := (stat demo_fs)(state_path \<mapsto> File),
                                   readFile := (readFile demo_fs)(state_path \<mapsto> text)\<rparr>\<rparr>"

definition marked_world :: world where
  "marked_world = demo_world\<lparr>fileStates :=
     [(JStr ''file:///w/a.txt'', JStr ''fullContent''),
      (JStr ''file:///w/b/c.txt'', JStr ''excluded'')]\<rparr>"

section \<open>The counters of the parser and of the walk\<close>

text \<open>
  Every successful call of the parser returns a shorter rest, and above the bound that
  \<open>json_parse\<close> sets the result of the parser does not depend on the counter: the counter
  only makes the recursion well-founded and rejects no text.
\<close>

lemma parse_chars_shorter: "parse_chars acc s = Some (x, r) \<Longrightarrow> length r < length s"
proof (induction acc s rule: parse_chars.induct)
  case (1 acc)
  then show ?case by simp
next
  case (2 acc c cs)
  show ?case
  proof (cases "c = dquote")
    case True
    with "2.prems" show ?thesis by simp
  next
    case nq: False
    show ?thesis
    proof (cases "c = backslash")
      case True
      then obtain e r0 where cs: "cs = e # r0"
        using "2.prems" nq by (cases cs) auto
      show ?thesis
      proof (cases "e = CHR ''u''")
        case True
        with "2.prems" nq \<open>c = backslash\<close> cs obtain h1 h2 h3 h4 r' n where
          r0: "r0 = h1 # h2 # h3 # h4 # r'" and h: "hex4 h1 h2 h3 h4 = Some n"
          and rec: "parse_chars (rev (utf8 n) @ acc) r' = Some (x, r)"
          by (auto split: list.splits option.splits)
        from "2.IH"(1) [OF nq \<open>c = backslash\<close> cs True r0 refl refl refl h rec]
        show ?thesis by (simp add: cs r0)
      next
        case False
        with "2.prems" nq \<open>c = backslash\<close> cs obtain d where
          d: "unescape e = Some d" and rec: "parse_chars (d # acc) r0 = Some (x, r)"
          by (auto split: option.splits)
        from "2.IH"(2) [OF nq \<open>c = backslash\<close> cs False d rec]
        show ?thesis by (simp add: cs)
      qed
    next
      case nb: False
      with "2.prems" nq have big: "\<not> (of_char c :: nat) < 32"
        and rec: "parse_chars (c # acc) cs = Some (x, r)"
        by (auto split: if_splits)
      from "2.IH"(3) [OF nq nb big rec] show ?thesis by simp
    qed
  qed
qed


lemma parse_digits_shorter: "parse_digits s = Some (x, r) \<Longrightarrow> length r < length s"
proof -
  assume a: "parse_digits s = Some (x, r)"
  then have "takeWhile is_digit s \<noteq> []" and r: "r = dropWhile is_digit s"
    by (auto simp: parse_digits_def Let_def split: if_splits)
  then have "length (takeWhile is_digit s) > 0" by simp
  moreover have "length s = length (takeWhile is_digit s) + length (dropWhile is_digit s)"
    by (metis length_append takeWhile_dropWhile_id)
  ultimately show ?thesis using r by simp
qed

lemma parse_int_part_shorter: "parse_int_part s = Some (x, r) \<Longrightarrow> length r < length s"
  by (auto simp: parse_int_part_def split: list.splits if_splits dest: parse_digits_shorter)


lemma parse_frac_shorter: "parse_frac s = Some (x, r) \<Longrightarrow> length r \<le> length s"
proof (cases s)
  case Nil
  then show "parse_frac s = Some (x, r) \<Longrightarrow> length r \<le> length s"
    by (simp add: parse_frac_def)
next
  case (Cons c t)
  assume a: "parse_frac s = Some (x, r)"
  show "length r \<le> length s"
  proof (cases "c = CHR ''.''")
    case True
    with a Cons obtain ds where "parse_digits t = Some (ds, r)"
      by (auto simp: parse_frac_def split: option.splits)
    from parse_digits_shorter [OF this] Cons show ?thesis by simp
  next
    case False
    with a Cons show ?thesis by (simp add: parse_frac_def)
  qed
qed

lemma parse_exp_shorter: "parse_exp s = Some (x, r) \<Longrightarrow> length r \<le> length s"
proof (cases s)
  case Nil
  then show "parse_exp s = Some (x, r) \<Longrightarrow> length r \<le> length s"
    by (simp add: parse_exp_def)
next
  case (Cons c t)
  assume a: "parse_exp s = Some (x, r)"
  show "length r \<le> length s"
  proof (cases "c = CHR ''e'' \<or> c = CHR ''E''")
    case False
    with a Cons show ?thesis by (simp add: parse_exp_def)
  next
    case True
    with a Cons obtain g t1 where t: "t = g # t1"
      by (cases t) (auto simp: parse_exp_def)
    show ?thesis
    proof (cases "g = CHR ''+'' \<or> g = CHR ''-''")
      case True
      with a Cons t \<open>c = CHR ''e'' \<or> c = CHR ''E''\<close> obtain ds
        where "parse_digits t1 = Some (ds, r)"
        by (auto simp: parse_exp_def split: option.splits)
      from parse_digits_shorter [OF this] Cons t show ?thesis by simp
    next
      case False
      with a Cons t \<open>c = CHR ''e'' \<or> c = CHR ''E''\<close> obtain ds
        where "parse_digits t = Some (ds, r)"
        by (auto simp: parse_exp_def split: option.splits)
      from parse_digits_shorter [OF this] Cons show ?thesis by simp
    qed
  qed
qed


lemma parse_number_from:
  assumes "parse_int_part s1 = Some (ip, s2)" and "parse_frac s2 = Some (fp, s3)"
    and "parse_exp s3 = Some (ep, r)"
  shows "length r < length s1"
  using parse_int_part_shorter [OF assms(1)] parse_frac_shorter [OF assms(2)]
    parse_exp_shorter [OF assms(3)]
  by simp

lemma parse_number_shorter: "parse_number s = Some (v, r) \<Longrightarrow> length r < length s"
proof -
  assume a: "parse_number s = Some (v, r)"
  define s1 where "s1 = (case s of [] \<Rightarrow> s | c # t \<Rightarrow> if c = CHR ''-'' then t else s)"
  have l1: "length s1 \<le> length s"
    by (simp add: s1_def split: list.splits)
  have "\<exists>ip s2 fp s3 ep. parse_int_part s1 = Some (ip, s2) \<and> parse_frac s2 = Some (fp, s3)
      \<and> parse_exp s3 = Some (ep, r)"
    using a unfolding parse_number_def s1_def
    by (cases s) (simp_all split: option.splits if_splits prod.splits)
  then obtain ip s2 fp s3 ep where "parse_int_part s1 = Some (ip, s2)"
    "parse_frac s2 = Some (fp, s3)" "parse_exp s3 = Some (ep, r)"
    by blast
  from parse_number_from [OF this] l1 show ?thesis by simp
qed


lemma skip_ws_Cons_shorter: "skip_ws s = c # t \<Longrightarrow> length t < length s"
proof -
  assume "skip_ws s = c # t"
  then have "Suc (length t) = length (dropWhile json_ws s)" by (simp add: skip_ws_def)
  also have "\<dots> \<le> length s" by (rule length_dropWhile_le)
  finally show ?thesis by simp
qed

lemma parse_shorter_step_value:
  assumes ih: "(\<forall>s v r. parse_value n s = Some (v, r) \<longrightarrow> length r < length s)
      \<and> (\<forall>acc s v r. parse_elems n acc s = Some (v, r) \<longrightarrow> length r < length s)
      \<and> (\<forall>acc s v r. parse_members n acc s = Some (v, r) \<longrightarrow> length r < length s)"
    and a: "parse_value (Suc n) s = Some (v, r)"
  shows "length r < length s"
proof -
  from ih have elems: "\<And>acc s v r. parse_elems n acc s = Some (v, r) \<Longrightarrow> length r < length s"
    and membs: "\<And>acc s v r. parse_members n acc s = Some (v, r) \<Longrightarrow> length r < length s"
    by blast+
  from a obtain c t where ct: "skip_ws s = c # t"
    by (cases "skip_ws s") auto
  from skip_ws_Cons_shorter [OF ct] have ts: "length t < length s" .
  consider (arr) "c = CHR ''[''" | (obj) "c \<noteq> CHR ''[''" "c = CHR ''{''"
    | (str) "c \<noteq> CHR ''[''" "c \<noteq> CHR ''{''" "c = dquote"
    | (other) "c \<noteq> CHR ''[''" "c \<noteq> CHR ''{''" "c \<noteq> dquote"
    by blast
  then show ?thesis
  proof cases
    case arr
    with a ct obtain c2 r2 where c2: "skip_ws t = c2 # r2"
      by (cases "skip_ws t") auto
    show ?thesis
    proof (cases "c2 = CHR '']''")
      case True
      with a ct arr c2 have "r = r2" by simp
      with skip_ws_Cons_shorter [OF c2] ts show ?thesis by simp
    next
      case False
      with a ct arr c2 have "parse_elems n [] t = Some (v, r)" by simp
      from elems [OF this] ts show ?thesis by simp
    qed
  next
    case obj
    with a ct obtain c2 r2 where c2: "skip_ws t = c2 # r2"
      by (cases "skip_ws t") auto
    show ?thesis
    proof (cases "c2 = CHR ''}''")
      case True
      with a ct obj c2 have "r = r2" by simp
      with skip_ws_Cons_shorter [OF c2] ts show ?thesis by simp
    next
      case False
      with a ct obj c2 have "parse_members n [] t = Some (v, r)" by simp
      from membs [OF this] ts show ?thesis by simp
    qed
  next
    case str
    with a ct obtain x where "parse_chars [] t = Some (x, r)"
      by (auto split: option.splits)
    from parse_chars_shorter [OF this] ts show ?thesis by simp
  next
    case other
    from a ct other have
      "(prefix ''null'' (c # t) \<and> r = drop 3 t) \<or> (prefix ''true'' (c # t) \<and> r = drop 3 t)
       \<or> (prefix ''false'' (c # t) \<and> r = drop 4 t) \<or> parse_number (c # t) = Some (v, r)"
      by (simp split: if_splits)
    then show ?thesis
      using ts by (auto dest: parse_number_shorter)
  qed
qed


lemma parse_shorter_step_elems:
  assumes ih: "(\<forall>s v r. parse_value n s = Some (v, r) \<longrightarrow> length r < length s)
      \<and> (\<forall>acc s v r. parse_elems n acc s = Some (v, r) \<longrightarrow> length r < length s)
      \<and> (\<forall>acc s v r. parse_members n acc s = Some (v, r) \<longrightarrow> length r < length s)"
    and a: "parse_elems (Suc n) acc s = Some (v, r)"
  shows "length r < length s"
proof -
  from ih have val: "\<And>s v r. parse_value n s = Some (v, r) \<Longrightarrow> length r < length s"
    and elems: "\<And>acc s v r. parse_elems n acc s = Some (v, r) \<Longrightarrow> length r < length s"
    by blast+
  from a obtain v0 r0 where v0: "parse_value n s = Some (v0, r0)"
    by (auto split: option.splits)
  from val [OF v0] have l0: "length r0 < length s" .
  from a v0 obtain c r' where c: "skip_ws r0 = c # r'"
    by (cases "skip_ws r0") auto
  from skip_ws_Cons_shorter [OF c] have l1: "length r' < length r0" .
  show ?thesis
  proof (cases "c = CHR '',''")
    case True
    with a v0 c have "parse_elems n (v0 # acc) r' = Some (v, r)" by simp
    from elems [OF this] l0 l1 show ?thesis by simp
  next
    case False
    with a v0 c have "r = r'" by (simp split: if_splits)
    with l0 l1 show ?thesis by simp
  qed
qed

lemma parse_shorter_step_members:
  assumes ih: "(\<forall>s v r. parse_value n s = Some (v, r) \<longrightarrow> length r < length s)
      \<and> (\<forall>acc s v r. parse_elems n acc s = Some (v, r) \<longrightarrow> length r < length s)
      \<and> (\<forall>acc s v r. parse_members n acc s = Some (v, r) \<longrightarrow> length r < length s)"
    and a: "parse_members (Suc n) acc s = Some (v, r)"
  shows "length r < length s"
proof -
  from ih have val: "\<And>s v r. parse_value n s = Some (v, r) \<Longrightarrow> length r < length s"
    and membs: "\<And>acc s v r. parse_members n acc s = Some (v, r) \<Longrightarrow> length r < length s"
    by blast+
  from a obtain c t where ct: "skip_ws s = c # t"
    by (cases "skip_ws s") auto
  from skip_ws_Cons_shorter [OF ct] have l0: "length t < length s" .
  from a ct have q: "c = dquote" by (simp split: if_splits)
  with a ct obtain k r1 where k: "parse_chars [] t = Some (k, r1)"
    by (auto split: option.splits)
  from parse_chars_shorter [OF k] have l1: "length r1 < length t" .
  from a ct q k obtain c1 r2 where c1: "skip_ws r1 = c1 # r2"
    by (cases "skip_ws r1") auto
  from skip_ws_Cons_shorter [OF c1] have l2: "length r2 < length r1" .
  from a ct q k c1 have colon: "c1 = CHR '':''" by (simp split: if_splits)
  with a ct q k c1 obtain v0 r3 where v0: "parse_value n r2 = Some (v0, r3)"
    by (auto split: option.splits)
  from val [OF v0] have l3: "length r3 < length r2" .
  from a ct q k c1 colon v0 obtain c3 r4 where c3: "skip_ws r3 = c3 # r4"
    by (cases "skip_ws r3") auto
  from skip_ws_Cons_shorter [OF c3] have l4: "length r4 < length r3" .
  show ?thesis
  proof (cases "c3 = CHR '',''")
    case True
    with a ct q k c1 colon v0 c3 have "parse_members n ((k, v0) # acc) r4 = Some (v, r)"
      by simp
    from membs [OF this] l0 l1 l2 l3 l4 show ?thesis by simp
  next
    case False
    with a ct q k c1 colon v0 c3 have "r = r4" by (simp split: if_splits)
    with l0 l1 l2 l3 l4 show ?thesis by simp
  qed
qed

lemma parse_shorter:
  "(\<forall>s v r. parse_value n s = Some (v, r) \<longrightarrow> length r < length s)
   \<and> (\<forall>acc s v r. parse_elems n acc s = Some (v, r) \<longrightarrow> length r < length s)
   \<and> (\<forall>acc s v r. parse_members n acc s = Some (v, r) \<longrightarrow> length r < length s)"
proof (induction n)
  case 0
  then show ?case by simp
next
  case (Suc n)
  show ?case
    using parse_shorter_step_value [OF Suc] parse_shorter_step_elems [OF Suc]
      parse_shorter_step_members [OF Suc]
    by blast
qed

lemma parse_value_shorter: "parse_value n s = Some (v, r) \<Longrightarrow> length r < length s"
  using parse_shorter by blast


lemma parse_elems_shorter: "parse_elems n acc s = Some (v, r) \<Longrightarrow> length r < length s"
  using parse_shorter by blast

lemma parse_members_shorter: "parse_members n acc s = Some (v, r) \<Longrightarrow> length r < length s"
  using parse_shorter by blast

lemma stable_value_step:
  assumes "\<forall>t. length t < length s \<longrightarrow> parse_elems n [] t = parse_elems m [] t"
    and "\<forall>t. length t < length s \<longrightarrow> parse_members n [] t = parse_members m [] t"
  shows "parse_value (Suc n) s = parse_value (Suc m) s"
proof (cases "skip_ws s")
  case Nil
  then show ?thesis by simp
next
  case (Cons c t)
  from skip_ws_Cons_shorter [OF Cons] assms
  have "parse_elems n [] t = parse_elems m [] t" "parse_members n [] t = parse_members m [] t"
    by blast+
  with Cons show ?thesis by (cases "skip_ws t") simp_all
qed

lemma stable_elems_step:
  assumes val: "parse_value n s = parse_value m s"
    and "\<forall>t acc. Suc (length t) < length s \<longrightarrow> parse_elems n acc t = parse_elems m acc t"
  shows "parse_elems (Suc n) acc s = parse_elems (Suc m) acc s"
proof (cases "parse_value m s")
  case None
  with val show ?thesis by simp
next
  case (Some vr)
  obtain v0 r0 where vr: "vr = (v0, r0)" by (cases vr)
  from parse_value_shorter Some vr have l0: "length r0 < length s" by blast
  show ?thesis
  proof (cases "skip_ws r0")
    case Nil
    with val Some vr show ?thesis by simp
  next
    case (Cons c r')
    from skip_ws_Cons_shorter [OF Cons] l0 have "Suc (length r') < length s" by simp
    with assms(2) have "parse_elems n (v0 # acc) r' = parse_elems m (v0 # acc) r'" by blast
    with val Some vr Cons show ?thesis by simp
  qed
qed

lemma stable_members_step:
  assumes "\<forall>t. length t < length s \<longrightarrow> parse_value n t = parse_value m t"
    and "\<forall>t acc. Suc (length t) < length s \<longrightarrow> parse_members n acc t = parse_members m acc t"
  shows "parse_members (Suc n) acc s = parse_members (Suc m) acc s"
proof (cases "skip_ws s")
  case Nil
  then show ?thesis by simp
next
  case (Cons c t)
  from skip_ws_Cons_shorter [OF Cons] have l0: "length t < length s" .
  show ?thesis
  proof (cases "parse_chars [] t")
    case None
    with Cons show ?thesis by simp
  next
    case (Some kr)
    obtain k r1 where kr: "kr = (k, r1)" by (cases kr)
    from parse_chars_shorter Some kr have l1: "length r1 < length t" by blast
    show ?thesis
    proof (cases "skip_ws r1")
      case Nil
      with Cons Some kr show ?thesis by simp
    next
      case c1: (Cons c1 r2)
      from skip_ws_Cons_shorter [OF c1] l0 l1 have l2: "length r2 < length s" by simp
      with assms(1) have val: "parse_value n r2 = parse_value m r2" by blast
      show ?thesis
      proof (cases "parse_value m r2")
        case None
        with val Cons Some kr c1 show ?thesis by simp
      next
        case v: (Some vr)
        obtain v0 r3 where vr: "vr = (v0, r3)" by (cases vr)
        from parse_value_shorter v vr have l3: "length r3 < length r2" by blast
        show ?thesis
        proof (cases "skip_ws r3")
          case Nil
          with val Cons Some kr c1 v vr show ?thesis by simp
        next
          case c3: (Cons c3 r4)
          from skip_ws_Cons_shorter [OF c3] l2 l3 have "Suc (length r4) < length s" by simp
          with assms(2) have "parse_members n ((k, v0) # acc) r4
              = parse_members m ((k, v0) # acc) r4"
            by blast
          with val Cons Some kr c1 v vr c3 show ?thesis by simp
        qed
      qed
    qed
  qed
qed


lemma parse_stable:
  "(\<forall>n m. 2 * length s + 2 \<le> n \<and> 2 * length s + 2 \<le> m \<longrightarrow> parse_value n s = parse_value m s)
   \<and> (\<forall>n m acc. 2 * length s + 3 \<le> n \<and> 2 * length s + 3 \<le> m \<longrightarrow>
         parse_elems n acc s = parse_elems m acc s)
   \<and> (\<forall>n m acc. 2 * length s + 3 \<le> n \<and> 2 * length s + 3 \<le> m \<longrightarrow>
         parse_members n acc s = parse_members m acc s)"
proof (induction s rule: length_induct)
  case (1 s)
  have val: "parse_value n s = parse_value m s"
    if "2 * length s + 2 \<le> n" "2 * length s + 2 \<le> m" for n m
  proof -
    from that obtain n' m' where nm: "n = Suc n'" "m = Suc m'"
      and big: "2 * length s + 1 \<le> n'" "2 * length s + 1 \<le> m'"
      by (cases n; cases m) auto
    have "\<forall>t. length t < length s \<longrightarrow> parse_elems n' [] t = parse_elems m' [] t"
      using 1 big by (auto intro!: "1.IH" [rule_format, THEN conjunct2, THEN conjunct1, rule_format])
    moreover have "\<forall>t. length t < length s \<longrightarrow> parse_members n' [] t = parse_members m' [] t"
      using 1 big by (auto intro!: "1.IH" [rule_format, THEN conjunct2, THEN conjunct2, rule_format])
    ultimately show ?thesis unfolding nm by (rule stable_value_step)
  qed
  have elems: "parse_elems n acc s = parse_elems m acc s"
    if "2 * length s + 3 \<le> n" "2 * length s + 3 \<le> m" for n m acc
  proof -
    from that obtain n' m' where nm: "n = Suc n'" "m = Suc m'"
      and big: "2 * length s + 2 \<le> n'" "2 * length s + 2 \<le> m'"
      by (cases n; cases m) auto
    have "parse_value n' s = parse_value m' s" using big by (rule val)
    moreover have "\<forall>t acc. Suc (length t) < length s \<longrightarrow>
        parse_elems n' acc t = parse_elems m' acc t"
      using big by (auto intro!: "1.IH" [rule_format, THEN conjunct2, THEN conjunct1, rule_format])
    ultimately show ?thesis unfolding nm by (rule stable_elems_step)
  qed
  have membs: "parse_members n acc s = parse_members m acc s"
    if "2 * length s + 3 \<le> n" "2 * length s + 3 \<le> m" for n m acc
  proof -
    from that obtain n' m' where nm: "n = Suc n'" "m = Suc m'"
      and big: "2 * length s + 2 \<le> n'" "2 * length s + 2 \<le> m'"
      by (cases n; cases m) auto
    have "\<forall>t. length t < length s \<longrightarrow> parse_value n' t = parse_value m' t"
      using big by (auto intro!: "1.IH" [rule_format, THEN conjunct1, rule_format])
    moreover have "\<forall>t acc. Suc (length t) < length s \<longrightarrow>
        parse_members n' acc t = parse_members m' acc t"
      using big by (auto intro!: "1.IH" [rule_format, THEN conjunct2, THEN conjunct2, rule_format])
    ultimately show ?thesis unfolding nm by (rule stable_members_step)
  qed
  from val elems membs show ?case by blast
qed

lemma json_parse_any_bound:
  assumes "2 * length s + 2 \<le> n"
  shows "json_parse s =
     (case parse_value n s of
        None \<Rightarrow> None
      | Some (v, r) \<Rightarrow> if skip_ws r = [] then Some v else None)"
proof -
  have "parse_value (2 * length s + 2) s = parse_value n s"
    using parse_stable assms by blast
  then show ?thesis by (simp add: json_parse_def)
qed

text \<open>A walk that returns within a bound returns the same files within every larger one.\<close>

lemma getAllFileUris_mono:
  "getAllFileUris n fs us = Some r \<Longrightarrow> n \<le> m \<Longrightarrow> getAllFileUris m fs us = Some r"
proof (induction n fs us arbitrary: m r rule: getAllFileUris.induct)
  case (1 n fs)
  then show ?case by simp
next
  case (2 n fs uri uris)
  show ?case
  proof (cases "stat fs uri")
    case None
    with "2.prems"(1) have "getAllFileUris n fs uris = Some r" by simp
    from "2.IH"(1) [OF None this "2.prems"(2)] None show ?thesis by simp
  next
    case (Some t)
    show ?thesis
    proof (cases t)
      case Unknown
      with "2.prems"(1) Some have "getAllFileUris n fs uris = Some r" by simp
      from "2.IH"(2) [OF Some Unknown this "2.prems"(2)] Some Unknown show ?thesis by simp
    next
      case File
      with "2.prems" Some obtain rest where
        rest: "getAllFileUris n fs uris = Some rest" and r: "r = uri # rest"
        by auto
      from "2.IH"(3) [OF Some File rest "2.prems"(2)] Some File r show ?thesis by simp
    next
      case SymbolicLink
      with "2.prems"(1) Some have "getAllFileUris n fs uris = Some r" by simp
      from "2.IH"(7) [OF Some SymbolicLink this "2.prems"(2)] Some SymbolicLink
      show ?thesis by simp
    next
      case LinkToFile
      with "2.prems"(1) Some have "getAllFileUris n fs uris = Some r" by simp
      from "2.IH"(8) [OF Some LinkToFile this "2.prems"(2)] Some LinkToFile
      show ?thesis by simp
    next
      case LinkToDirectory
      with "2.prems"(1) Some have "getAllFileUris n fs uris = Some r" by simp
      from "2.IH"(9) [OF Some LinkToDirectory this "2.prems"(2)] Some LinkToDirectory
      show ?thesis by simp
    next
      case Directory
      show ?thesis
      proof (cases "readDirectory fs uri")
        case None
        with "2.prems"(1) Some Directory have "getAllFileUris n fs uris = Some r" by simp
        from "2.IH"(4) [OF Some Directory None this "2.prems"(2)] Some Directory None
        show ?thesis by simp
      next
        case names: (Some filesInDir)
        from "2.prems" Some Directory names obtain k nested rest where
          n: "n = Suc k"
          and nested: "getAllFileUris k fs (map (joinPath uri) filesInDir) = Some nested"
          and rest: "getAllFileUris n fs uris = Some rest"
          and r: "r = nested @ rest"
          by (auto split: nat.splits option.splits)
        from "2.prems"(2) n obtain k' where m: "m = Suc k'" and kk: "k \<le> k'"
          by (cases m) auto
        from "2.IH"(5) [OF Some Directory names n nested kk]
        have "getAllFileUris k' fs (map (joinPath uri) filesInDir) = Some nested" .
        moreover from "2.IH"(6) [OF Some Directory names n nested rest "2.prems"(2)]
        have "getAllFileUris m fs uris = Some rest" .
        ultimately show ?thesis
          using Some Directory names m r by simp
      qed
    qed
  qed
qed

section \<open>Properties of the stream relay\<close>

lemma frame_messages_chunks: "m \<in> set (frame_messages l) \<Longrightarrow> \<exists>v. m = ChatChunk v"
  by (auto simp: frame_messages_def Let_def split: if_splits option.splits)

lemma chunk_messages_chunks: "m \<in> set (chunk_messages t) \<Longrightarrow> \<exists>v. m = ChatChunk v"
  by (auto simp: chunk_messages_def dest: frame_messages_chunks)

lemma read_loop_chunks: "read_loop vs fin = (ms, thrown) \<Longrightarrow> m \<in> set ms \<Longrightarrow> \<exists>v. m = ChatChunk v"
  by (induction vs arbitrary: ms) (cases fin; auto split: prod.splits dest: chunk_messages_chunks)+

lemma try_request_chunks:
  "try_request outcome = (ms, thrown) \<Longrightarrow> m \<in> set ms \<Longrightarrow> \<exists>v. m = ChatChunk v"
  by (auto simp: try_request_def split: fetch_outcome.splits option.splits if_splits prod.splits
      dest: read_loop_chunks)

lemma read_loop_done: "read_loop vs StreamDone = (concat (map chunk_messages vs), None)"
  by (induction vs) auto

lemma read_loop_failed: "read_loop vs (ReadFailed e) = (concat (map chunk_messages vs), Some e)"
  by (induction vs) auto

text \<open>
  Claim C8. Once a host is configured, so that a chat-completion request is issued, the
  handler posts \<open>chatEnd\<close> exactly once and last, whatever the network does: after the
  forwarded fragments when the stream is done, and after a single \<open>chatError\<close> when
  \<open>fetch\<close> rejects, when the status is not a success or the body is missing, or when a
  read fails.
\<close>

theorem chat_end_exactly_once:
  assumes "host \<noteq> None" and "host \<noteq> Some []"
  shows "(\<exists>chunks errs. handleChatRequest host outcome = chunks @ errs @ [ChatEnd]
            \<and> (\<forall>m \<in> set chunks. \<exists>v. m = ChatChunk v)
            \<and> (errs = [] \<or> (\<exists>e. errs = [ChatError e])))
       \<and> count_list (handleChatRequest host outcome) ChatEnd = 1
       \<and> (\<forall>e. outcome = FetchRejected e \<longrightarrow>
             handleChatRequest host outcome = [ChatError e, ChatEnd])
       \<and> (\<forall>r. outcome = FetchResolved r \<and> (\<not> ok r \<or> body r = None) \<longrightarrow>
             handleChatRequest host outcome
               = [ChatError (''API error: '' @ string_of_nat (status r)), ChatEnd])
       \<and> (\<forall>r reads e. outcome = FetchResolved r \<and> ok r \<and> body r = Some (reads, ReadFailed e) \<longrightarrow>
             handleChatRequest host outcome
               = concat (map chunk_messages reads) @ [ChatError e, ChatEnd])
       \<and> (\<forall>r reads. outcome = FetchResolved r \<and> ok r \<and> body r = Some (reads, StreamDone) \<longrightarrow>
             handleChatRequest host outcome = concat (map chunk_messages reads) @ [ChatEnd])"
proof -
  obtain ms thrown where tr: "try_request outcome = (ms, thrown)"
    by (cases "try_request outcome")
  define errs where "errs = (case thrown of None \<Rightarrow> [] | Some e \<Rightarrow> [ChatError e])"
  have res: "handleChatRequest host outcome = ms @ errs @ [ChatEnd]"
    using assms tr by (simp add: handleChatRequest_def errs_def)
  have chunks: "\<forall>m \<in> set ms. \<exists>v. m = ChatChunk v"
    using tr try_request_chunks by blast
  have errs: "errs = [] \<or> (\<exists>e. errs = [ChatError e])"
    by (cases thrown) (simp_all add: errs_def)
  have "count_list ms ChatEnd = 0"
    using chunks by (induction ms) auto
  moreover have "count_list errs ChatEnd = 0"
    using errs by auto
  ultimately have cnt: "count_list (handleChatRequest host outcome) ChatEnd = 1"
    by (simp add: res)
  have rej: "\<forall>e. outcome = FetchRejected e \<longrightarrow>
      handleChatRequest host outcome = [ChatError e, ChatEnd]"
    using assms by (auto simp: handleChatRequest_def try_request_def)
  have bad: "\<forall>r. outcome = FetchResolved r \<and> (\<not> ok r \<or> body r = None) \<longrightarrow>
      handleChatRequest host outcome
        = [ChatError (''API error: '' @ string_of_nat (status r)), ChatEnd]"
    using assms by (auto simp: handleChatRequest_def try_request_def split: option.splits)
  have failed: "\<forall>r reads e. outcome = FetchResolved r \<and> ok r \<and> body r = Some (reads, ReadFailed e) \<longrightarrow>
      handleChatRequest host outcome = concat (map chunk_messages reads) @ [ChatError e, ChatEnd]"
    using assms by (auto simp: handleChatRequest_def try_request_def read_loop_failed)
  have ended: "\<forall>r reads. outcome = FetchResolved r \<and> ok r \<and> body r = Some (reads, StreamDone) \<longrightarrow>
      handleChatRequest host outcome = concat (map chunk_messages reads) @ [ChatEnd]"
    using assms by (auto simp: handleChatRequest_def try_request_def read_loop_done)
  from res chunks errs cnt rej bad failed ended show ?thesis by blast
qed

lemma chunk_hi_then_tail:
  "\<forall>t \<in> set (prefixes done_tail). chunk_messages (hi_frame @ t) = [ChatChunk (JStr ''Hi'')]"
  by code_simp

lemma chunk_inside_tail: "\<forall>t \<in> set (sublists done_tail). chunk_messages t = []"
  by code_simp

lemma chunk_messages_empty: "chunk_messages [] = []"
  by code_simp

lemma sublist_of_concat: "c \<in> set cs \<Longrightarrow> sublist c (concat cs)"
proof -
  assume "c \<in> set cs"
  then obtain a b where "cs = a @ c # b" by (auto dest: split_list)
  then have "concat cs = concat a @ c @ concat b" by simp
  then show ?thesis unfolding sublist_def by blast
qed

lemma tail_reads_silent:
  assumes "sublist (concat cs) done_tail"
  shows "concat (map chunk_messages cs) = []"
proof -
  have "chunk_messages c = []" if "c \<in> set cs" for c
  proof -
    have "sublist c done_tail"
      using sublist_of_concat [OF that] assms by (rule sublist_order.order_trans)
    then show ?thesis using chunk_inside_tail by simp
  qed
  then show ?thesis by simp
qed

lemma whole_frame_reads:
  assumes "concat cs = hi_frame @ done_tail"
    and "\<forall>i \<le> length cs. length (concat (take i cs)) = 0
           \<or> length hi_frame \<le> length (concat (take i cs))"
  shows "concat (map chunk_messages cs) = [ChatChunk (JStr ''Hi'')]"
  using assms
proof (induction cs)
  case Nil
  then show ?case by (simp add: hi_frame_def)
next
  case (Cons c cs)
  show ?case
  proof (cases "c = []")
    case True
    have "\<forall>i \<le> length cs. length (concat (take i cs)) = 0
           \<or> length hi_frame \<le> length (concat (take i cs))"
    proof (intro allI impI)
      fix i assume "i \<le> length cs"
      then have "Suc i \<le> length (c # cs)" by simp
      from Cons.prems(2) [rule_format, OF this] True
      show "length (concat (take i cs)) = 0 \<or> length hi_frame \<le> length (concat (take i cs))"
        by simp
    qed
    with Cons True show ?thesis by (simp add: chunk_messages_empty)
  next
    case False
    have "Suc 0 \<le> length (c # cs)" by simp
    from Cons.prems(2) [rule_format, OF this] False
    have len: "length hi_frame \<le> length c" by simp
    from Cons.prems(1) have eq: "c @ concat cs = hi_frame @ done_tail" by simp
    define t where "t = drop (length hi_frame) c"
    have "take (length hi_frame) (c @ concat cs) = hi_frame"
      by (simp add: eq)
    with len have "take (length hi_frame) c = hi_frame" by simp
    then have "c = hi_frame @ t"
      unfolding t_def by (metis append_take_drop_id)
    moreover from this eq have "done_tail = t @ concat cs" by simp
    ultimately have t: "c = hi_frame @ t" "done_tail = t @ concat cs" by simp_all
    from t(2) have "prefix t done_tail" by (rule prefixI)
    then have first: "chunk_messages c = [ChatChunk (JStr ''Hi'')]"
      using chunk_hi_then_tail t(1) by simp
    from t(2) have "sublist (concat cs) done_tail"
      by (metis sublist_appendI append_Nil2)
    then have "concat (map chunk_messages cs) = []" by (rule tail_reads_silent)
    with first show ?thesis by simp
  qed
qed

text \<open>
  Claim C1, as amended. The response body of the claim is relayed as exactly one fragment
  \<open>Hi\<close> followed by exactly one \<open>chatEnd\<close> for every way of splitting it across reads
  in which no read ends inside the first frame. Each read is parsed on its own: a frame
  that is split across two reads is not reassembled.
\<close>

theorem relay_hi_whole_frame:
  assumes "host \<noteq> None" and "host \<noteq> Some []"
    and "200 \<le> code" and "code \<le> 299"
    and "concat reads = sse_body"
    and "\<forall>i \<le> length reads. length (concat (take i reads)) = 0
           \<or> length hi_frame \<le> length (concat (take i reads))"
  shows "handleChatRequest host
           (FetchResolved \<lparr>status = code, body = Some (reads, StreamDone)\<rparr>)
         = [ChatChunk (JStr ''Hi''), ChatEnd]"
proof -
  have "concat (map chunk_messages reads) = [ChatChunk (JStr ''Hi'')]"
    using assms(5,6) unfolding sse_body_def by (rule whole_frame_reads)
  then show ?thesis
    using assms(1-4) by (simp add: handleChatRequest_def try_request_def ok_def read_loop_done)
qed


text \<open>Claim C8 on a rejected \<open>fetch\<close>.\<close>

theorem chat_end_exactly_once_witness:
  "Some ''http://localhost:9600'' \<noteq> None \<and> Some ''http://localhost:9600'' \<noteq> Some []
   \<and> handleChatRequest (Some ''http://localhost:9600'') (FetchRejected ''fetch failed'')
       = [ChatError ''fetch failed'', ChatEnd]
   \<and> count_list (handleChatRequest (Some ''http://localhost:9600'')
         (FetchRejected ''fetch failed'')) ChatEnd = 1"
  using chat_end_exactly_once [of "Some ''http://localhost:9600''" "FetchRejected ''fetch failed''"]
  by simp

text \<open>Claim C1 as amended, on a split between the two line feeds after the first frame.\<close>

theorem relay_hi_whole_frame_witness:
  \<open>Some ''http://localhost:9600'' \<noteq> None \<and> Some ''http://localhost:9600'' \<noteq> Some []
   \<and> (200::nat) \<le> 200 \<and> (200::nat) \<le> 299
   \<and> concat [''data: {"choices":[{"delta":{"content":"Hi"}}]}\<newline>'',
              ''\<newline>data: [DONE]\<newline>\<newline>''] = sse_body
   \<and> handleChatRequest (Some ''http://localhost:9600'')
        (FetchResolved \<lparr>status = 200,
           body = Some ([''data: {"choices":[{"delta":{"content":"Hi"}}]}\<newline>'',
                         ''\<newline>data: [DONE]\<newline>\<newline>''], StreamDone)\<rparr>)
       = [ChatChunk (JStr ''Hi''), ChatEnd]\<close>
proof -
  let ?reads = \<open>[''data: {"choices":[{"delta":{"content":"Hi"}}]}\<newline>'',
                 ''\<newline>data: [DONE]\<newline>\<newline>'']\<close>
  have whole: "concat ?reads = sse_body"
    by (simp add: sse_body_def hi_frame_def done_tail_def)
  have cuts: "\<forall>i \<le> length ?reads. length (concat (take i ?reads)) = 0
      \<or> length hi_frame \<le> length (concat (take i ?reads))"
    by (simp add: le_Suc_eq hi_frame_def all_conj_distrib)
  have "handleChatRequest (Some ''http://localhost:9600'')
          (FetchResolved \<lparr>status = 200, body = Some (?reads, StreamDone)\<rparr>)
        = [ChatChunk (JStr ''Hi''), ChatEnd]"
    using relay_hi_whole_frame [of "Some ''http://localhost:9600''" 200 ?reads] whole cuts
    by simp
  with whole show ?thesis by simp
qed

text \<open>
  Claim C1 as stated fails: when the first read ends inside the content frame, no
  fragment is forwarded at all.
\<close>

theorem relay_split_frame_counterexample:
  \<open>concat [''data: {"choi'',
            ''ces":[{"delta":{"content":"Hi"}}]}\<newline>\<newline>data: [DONE]\<newline>\<newline>'']
     = sse_body
   \<and> handleChatRequest (Some ''http://localhost:9600'')
        (FetchResolved \<lparr>status = 200,
           body = Some ([''data: {"choi'',
             ''ces":[{"delta":{"content":"Hi"}}]}\<newline>\<newline>data: [DONE]\<newline>\<newline>''],
             StreamDone)\<rparr>)
       = [ChatEnd]\<close>
  by code_simp

section \<open>Properties of the state manager\<close>


lemma same_value_zero_JStr [simp]: "same_value_zero k' (JStr s) \<longleftrightarrow> k' = JStr s"
  by (cases k') auto

lemma map_get_map_set:
  "map_get (map_set m (JStr s) v) k = (if k = JStr s then v else map_get m k)"
  by (induction m) (auto split: if_splits)

lemma map_get_map_delete:
  "map_get (map_delete m (JStr s)) k = (if k = JStr s then JUndefined else map_get m k)"
  by (induction m) (auto simp: map_delete_def)

lemma map_get_apply_state:
  "map_get (apply_state state uri m) k =
     (if k = key uri then (if state = TreeOnly then JUndefined else JStr (tag state))
      else map_get m k)"
  by (simp add: apply_state_def key_def map_get_map_set map_get_map_delete)

lemma map_get_fold_apply_state:
  "map_get (fold (apply_state state) files m) k =
     (if k \<in> key ` set files then (if state = TreeOnly then JUndefined else JStr (tag state))
      else map_get m k)"
  by (induction files arbitrary: m) (auto simp: map_get_apply_state)

lemma excluded_above_iff:
  "excluded_above m p \<longleftrightarrow> (\<exists>q. strict_prefix q p \<and> map_get m (key q) = JStr ''excluded'')"
proof (induction p rule: rev_induct)
  case Nil
  then show ?case by (subst excluded_above.simps) (simp add: dirname_def)
next
  case (snoc x xs)
  have "strict_prefix q (xs @ [x]) \<longleftrightarrow> q = xs \<or> strict_prefix q xs" for q
    by (auto simp: strict_prefix_def prefix_snoc)
  with snoc show ?case
    by (subst excluded_above.simps) (auto simp: dirname_def)
qed

lemma dirname_funpow: "(dirname ^^ n) p = take (length p - n) p"
proof (induction n)
  case 0
  then show ?case by simp
next
  case (Suc n)
  then show ?case by (simp add: dirname_def butlast_take)
qed

text \<open>
  Claim C2. For every map and every path, \<open>getState\<close> is \<open>excluded\<close> exactly when the
  path itself or one of its ancestors (a prefix of the path) has the stored policy
  \<open>excluded\<close>, whatever the path's own entry is; otherwise it is the path's own stored
  policy, and \<open>treeOnly\<close> when there is none (or a falsy one). The walk over the ancestors
  ends: after \<open>length p\<close> steps \<open>dirname\<close> has reached the root, which is its own parent.
\<close>

theorem getState_effective:
  "getState m p =
     (if \<exists>q. prefix q p \<and> map_get m (key q) = JStr ''excluded'' then JStr ''excluded''
      else if truthy (map_get m (key p)) then map_get m (key p)
      else JStr ''treeOnly'')
   \<and> (dirname ^^ length p) p = [] \<and> dirname [] = []"
proof -
  have "(\<exists>q. prefix q p \<and> map_get m (key q) = JStr ''excluded'')
      \<longleftrightarrow> map_get m (key p) = JStr ''excluded'' \<or> excluded_above m p"
    by (auto simp: excluded_above_iff prefix_order.le_less)
  then show ?thesis
    by (simp add: getState_def Let_def dirname_funpow dirname_def)
qed


lemma files_are_files:
  "getAllFileUris n fs us = Some r \<Longrightarrow> f \<in> set r \<Longrightarrow> stat fs f = Some File"
proof (induction n fs us arbitrary: r rule: getAllFileUris.induct)
  case (1 n fs)
  then show ?case by simp
next
  case (2 n fs uri uris)
  then show ?case
    by (auto split: option.splits FileType.splits nat.splits)
qed

lemma getAllFileUris_unstatable:
  "\<forall>u \<in> set uris. stat fs u = None \<Longrightarrow> getAllFileUris n fs uris = Some []"
  by (induction uris) auto

lemma link_name_stat [simp]: "stat (link_name fs p) = stat fs"
  by (simp add: link_name_def)

lemma link_name_readFile [simp]: "readFile (link_name fs p) = readFile fs"
  by (simp add: link_name_def)

lemma ensure_dir_None [simp]: "ensure_dir q None = None"
  by (simp add: ensure_dir_def)

lemma fold_ensure_dir_None [simp]: "fold ensure_dir qs None = None"
  by (induction qs) auto

lemma ensure_dir_stat:
  "ensure_dir q (Some fs) = Some fs' \<Longrightarrow> stat fs p = Some t \<Longrightarrow> stat fs' p = Some t"
  by (auto simp: ensure_dir_def split: option.splits FileType.splits if_splits)

lemma fold_ensure_dir_stat:
  "fold ensure_dir qs (Some fs) = Some fs' \<Longrightarrow> stat fs p = Some t \<Longrightarrow> stat fs' p = Some t"
proof (induction qs arbitrary: fs)
  case Nil
  then show ?case by simp
next
  case (Cons q qs)
  show ?case
  proof (cases "ensure_dir q (Some fs)")
    case None
    with Cons.prems show ?thesis by simp
  next
    case (Some fs1)
    with Cons.prems have "stat fs1 p = Some t" by (auto dest: ensure_dir_stat)
    with Cons.IH [of fs1] Cons.prems Some show ?thesis by simp
  qed
qed

lemma writeFile_stat:
  "writeFile fs sp data = Some fs' \<Longrightarrow> stat fs p = Some t \<Longrightarrow> stat fs' p = Some t"
  by (auto simp: writeFile_def split: if_splits option.splits)

lemma try_save_stat:
  "try_save fs sp data = Some fs' \<Longrightarrow> stat fs p = Some t \<Longrightarrow> stat fs' p = Some t"
  by (auto simp: try_save_def mkdirSync_def Let_def split: if_splits option.splits
      dest: writeFile_stat fold_ensure_dir_stat)

lemma try_save_readFile:
  "try_save fs sp data = Some fs' \<Longrightarrow> readFile fs' sp = Some data \<and> existsSync fs' sp"
  by (auto simp: try_save_def writeFile_def existsSync_def Let_def split: if_splits option.splits)

lemma saveState_stat: "stat (disk w) p = Some t \<Longrightarrow> stat (disk (saveState w)) p = Some t"
  by (auto simp: saveState_def split: option.splits dest: try_save_stat)

lemma saveState_fields [simp]:
  "fileStates (saveState w) = fileStates w"
  "fired (saveState w) = fired w"
  "stateFilePath (saveState w) = stateFilePath w"
  by (simp_all add: saveState_def split: option.splits)

lemma setState_file:
  assumes "stat (disk w) p = Some File"
  shows "\<exists>w'. setState n w [p] st = Some w'
           \<and> fileStates w' = apply_state st p (fileStates w)
           \<and> stat (disk w') p = Some File"
  using assms saveState_stat [of "w\<lparr>fileStates := apply_state st p (fileStates w)\<rparr>" p File]
  by (simp add: setState_def Let_def)

lemma cycle_step:
  assumes "stat (disk w) p = Some File"
  shows "\<exists>w'. cycleState n w p = Some w' \<and> stat (disk w') p = Some File
           \<and> map_get (fileStates w') (key p) =
               (if map_get (fileStates w) (key p) = JStr ''fullContent'' then JStr ''signatures''
                else if map_get (fileStates w) (key p) = JStr ''signatures'' then JUndefined
                else JStr ''fullContent'')"
proof -
  define st where "st = (if map_get (fileStates w) (key p) = JStr ''fullContent'' then Signatures
                       else if map_get (fileStates w) (key p) = JStr ''signatures'' then TreeOnly
                       else FullContent)"
  from setState_file [OF assms, of n st] obtain w' where
    w': "setState n w [p] st = Some w'" "fileStates w' = apply_state st p (fileStates w)"
        "stat (disk w') p = Some File"
    by blast
  have "cycleState n w p = Some w'"
    using w'(1) by (simp add: cycleState_def st_def Let_def)
  moreover have "map_get (fileStates w') (key p) =
      (if map_get (fileStates w) (key p) = JStr ''fullContent'' then JStr ''signatures''
       else if map_get (fileStates w) (key p) = JStr ''signatures'' then JUndefined
       else JStr ''fullContent'')"
    by (simp add: w'(2) map_get_apply_state st_def)
  ultimately show ?thesis using w'(3) by blast
qed

text \<open>
  Claim C3, as amended. For a path that is a regular file, three calls of \<open>cycleState\<close>
  all return and take the path's own stored policy through the cycle no entry
  (\<open>treeOnly\<close>), \<open>fullContent\<close>, \<open>signatures\<close>, no entry: from each of the three states
  the next two are visited in this order and the third call restores the first.
\<close>

theorem cycle_file_three_states:
  assumes "stat (disk w) p = Some File"
  shows "\<exists>w1 w2 w3.
           cycleState n w p = Some w1 \<and> cycleState n w1 p = Some w2
         \<and> cycleState n w2 p = Some w3
         \<and> (map_get (fileStates w) (key p) = JUndefined \<longrightarrow>
              map_get (fileStates w1) (key p) = JStr ''fullContent''
            \<and> map_get (fileStates w2) (key p) = JStr ''signatures''
            \<and> map_get (fileStates w3) (key p) = JUndefined)
         \<and> (map_get (fileStates w) (key p) = JStr ''fullContent'' \<longrightarrow>
              map_get (fileStates w1) (key p) = JStr ''signatures''
            \<and> map_get (fileStates w2) (key p) = JUndefined
            \<and> map_get (fileStates w3) (key p) = JStr ''fullContent'')
         \<and> (map_get (fileStates w) (key p) = JStr ''signatures'' \<longrightarrow>
              map_get (fileStates w1) (key p) = JUndefined
            \<and> map_get (fileStates w2) (key p) = JStr ''fullContent''
            \<and> map_get (fileStates w3) (key p) = JStr ''signatures'')"
proof -
  from cycle_step [OF assms, of n] obtain w1 where
    w1: "cycleState n w p = Some w1" "stat (disk w1) p = Some File"
      "map_get (fileStates w1) (key p) =
         (if map_get (fileStates w) (key p) = JStr ''fullContent'' then JStr ''signatures''
          else if map_get (fileStates w) (key p) = JStr ''signatures'' then JUndefined
          else JStr ''fullContent'')"
    by blast
  from cycle_step [OF w1(2), of n] obtain w2 where
    w2: "cycleState n w1 p = Some w2" "stat (disk w2) p = Some File"
      "map_get (fileStates w2) (key p) =
         (if map_get (fileStates w1) (key p) = JStr ''fullContent'' then JStr ''signatures''
          else if map_get (fileStates w1) (key p) = JStr ''signatures'' then JUndefined
          else JStr ''fullContent'')"
    by blast
  from cycle_step [OF w2(2), of n] obtain w3 where
    w3: "cycleState n w2 p = Some w3"
      "map_get (fileStates w3) (key p) =
         (if map_get (fileStates w2) (key p) = JStr ''fullContent'' then JStr ''signatures''
          else if map_get (fileStates w2) (key p) = JStr ''signatures'' then JUndefined
          else JStr ''fullContent'')"
    by blast
  show ?thesis
    apply (rule exI [of _ w1], rule exI [of _ w2], rule exI [of _ w3])
    using w1(1,3) w2(1,3) w3 by simp
qed

text \<open>
  Claim C10. When no URI given to \<open>setState\<close> can be stat'ed, \<open>setState\<close> still returns,
  for every bound on the walk; the map is unchanged, exactly one notification is added and it
  carries the empty path set, and where the state file can be written it is rewritten with
  the serialised map and no error is shown.
\<close>

theorem setState_nothing_statable:
  assumes "\<forall>u \<in> set uris. stat (disk w) u = None"
  shows "\<exists>w'. setState n w uris state = Some w'
           \<and> fileStates w' = fileStates w
           \<and> fired w' = fired w @ [ []]
           \<and> (\<forall>p fs'. stateFilePath w = Some p
                 \<and> try_save (disk w) p (stringify (entries (fileStates w))) = Some fs'
               \<longrightarrow> readFile (disk w') p = Some (stringify (entries (fileStates w)))
                   \<and> shown w' = shown w)"
proof -
  have none: "getAllFileUris n (disk w) uris = Some []"
    using assms by (rule getAllFileUris_unstatable)
  have same: "w\<lparr>fileStates := fileStates w\<rparr> = w" by simp
  have "setState n w uris state = Some ((saveState w)\<lparr>fired := fired w @ [ []]\<rparr>)"
    by (simp add: setState_def none same Let_def)
  moreover have "readFile (disk (saveState w)) p = Some (stringify (entries (fileStates w)))
      \<and> shown (saveState w) = shown w"
    if "stateFilePath w = Some p"
      and "try_save (disk w) p (stringify (entries (fileStates w))) = Some fs'" for p fs'
    using that try_save_readFile [OF that(2)] by (simp add: saveState_def)
  ultimately show ?thesis by auto
qed

lemma takeWhile_until:
  "c \<notin> set a \<Longrightarrow> l = [] \<or> hd l = c \<Longrightarrow> takeWhile (\<lambda>x. x \<noteq> c) (a @ l) = a"
  by (induction a) (auto simp: takeWhile_eq_Nil_iff)

lemma slashed_inj:
  assumes "valid_path p" and "valid_path q"
    and "concat (map ((#) (CHR ''/'')) p) = concat (map ((#) (CHR ''/'')) q)"
  shows "p = q"
  using assms
proof (induction p arbitrary: q)
  case Nil
  then show ?case by (cases q) auto
next
  case (Cons a p)
  then obtain b q' where q: "q = b # q'" by (cases q) auto
  let ?X = "concat (map ((#) (CHR ''/'')) p)" and ?Y = "concat (map ((#) (CHR ''/'')) q')"
  from Cons.prems q have eq: "a @ ?X = b @ ?Y" by simp
  from Cons.prems q have a: "CHR ''/'' \<notin> set a" and b: "CHR ''/'' \<notin> set b"
    by (simp_all add: valid_path_def)
  have X: "?X = [] \<or> hd ?X = CHR ''/''" by (cases p) auto
  have Y: "?Y = [] \<or> hd ?Y = CHR ''/''" by (cases q') auto
  have "takeWhile (\<lambda>c. c \<noteq> CHR ''/'') (a @ ?X) = a"
    using a X by (rule takeWhile_until)
  moreover have "takeWhile (\<lambda>c. c \<noteq> CHR ''/'') (b @ ?Y) = b"
    using b Y by (rule takeWhile_until)
  ultimately have ab: "a = b" using eq by simp
  with eq have "?X = ?Y" by simp
  moreover from Cons.prems q have "valid_path p" "valid_path q'"
    by (simp_all add: valid_path_def)
  ultimately have "p = q'" by (rule Cons.IH [rotated 2])
  with ab q show ?case by simp
qed

lemma key_inj:
  assumes "valid_path p" and "valid_path q" and "key p = key q"
  shows "p = q"
proof -
  from assms(3) have eq: "fsPath p = fsPath q" by (simp add: key_def uri_toString_def)
  then have len: "length (fsPath p) = length (fsPath q)" by simp
  have long: "length (concat (map ((#) (CHR ''/'')) r)) \<ge> 2" if "valid_path r" "r \<noteq> []" for r
    using that by (cases r; cases "hd r") (auto simp: valid_path_def)
  show ?thesis
  proof (cases "p = []"; cases "q = []")
    assume "p = []" "q \<noteq> []"
    with len long [OF assms(2)] show ?thesis by (simp add: fsPath_def)
  next
    assume "p \<noteq> []" "q = []"
    with len long [OF assms(1)] show ?thesis by (simp add: fsPath_def)
  next
    assume "p \<noteq> []" "q \<noteq> []"
    with eq assms(1,2) show ?thesis by (auto simp: fsPath_def intro: slashed_inj)
  qed simp
qed

text \<open>
  Claim C9. A call of \<open>setState\<close> that returns has enumerated a list of paths that are
  all regular files at the time of the call; it fires that list, a lookup in the new map
  differs from the old one only at the keys of those files, and no directory is among
  them: the entry of a directory (with proper file names) is what it was before.
\<close>

theorem setState_writes_file_keys:
  assumes "setState n w uris state = Some w'"
  shows "\<exists>files. getAllFileUris n (disk w) uris = Some files
           \<and> fired w' = fired w @ [files]
           \<and> (\<forall>f \<in> set files. stat (disk w) f = Some File)
           \<and> (\<forall>k. map_get (fileStates w') k =
                 (if k \<in> key ` set files
                  then (if state = TreeOnly then JUndefined else JStr (tag state))
                  else map_get (fileStates w) k))
           \<and> (\<forall>d. stat (disk w) d = Some Directory \<longrightarrow> d \<notin> set files)
           \<and> (\<forall>d. stat (disk w) d = Some Directory \<and> valid_path d
                   \<and> (\<forall>f \<in> set files. valid_path f)
                 \<longrightarrow> map_get (fileStates w') (key d) = map_get (fileStates w) (key d))"
proof -
  from assms obtain files where
    files: "getAllFileUris n (disk w) uris = Some files"
    by (auto simp: setState_def split: option.splits)
  with assms have w': "w' = (saveState (w\<lparr>fileStates :=
      fold (apply_state state) files (fileStates w)\<rparr>))\<lparr>fired := fired w @ [files]\<rparr>"
    by (simp add: setState_def Let_def)
  have isfile: "\<forall>f \<in> set files. stat (disk w) f = Some File"
    using files files_are_files by blast
  have look: "\<forall>k. map_get (fileStates w') k =
      (if k \<in> key ` set files
       then (if state = TreeOnly then JUndefined else JStr (tag state))
       else map_get (fileStates w) k)"
    by (simp add: w' map_get_fold_apply_state)
  have nodir: "\<forall>d. stat (disk w) d = Some Directory \<longrightarrow> d \<notin> set files"
    using isfile by auto
  have "map_get (fileStates w') (key d) = map_get (fileStates w) (key d)"
    if "stat (disk w) d = Some Directory" "valid_path d" "\<forall>f \<in> set files. valid_path f" for d
  proof -
    have "key d \<notin> key ` set files"
    proof
      assume "key d \<in> key ` set files"
      then obtain f where f: "f \<in> set files" "key d = key f" by auto
      with that have "d = f" by (auto intro: key_inj)
      with f(1) nodir that(1) show False by simp
    qed
    with look show ?thesis by simp
  qed
  with files w' isfile look nodir show ?thesis by auto
qed























section \<open>The persisted state\<close>


lemma control_hex:
  "\<forall>n \<in> set [0..<32].
     hex4 (CHR ''0'') (CHR ''0'') (hexdigit (n div 16)) (hexdigit (n mod 16)) = Some n"
  by code_simp

lemma control_hex_char:
  assumes "(of_char c :: nat) < 32"
  shows "hex4 (CHR ''0'') (CHR ''0'') (hexdigit (of_char c div 16)) (hexdigit (of_char c mod 16))
         = Some (of_char c)"
  using control_hex assms by simp

lemma parse_chars_escape:
  "parse_chars acc (escape_char c @ rest) = parse_chars (c # acc) rest"
proof -
  consider "c = dquote" | "c = backslash" | "c = CHR 0x08" | "c = CHR 0x0C" | "c = CHR 0x0A"
    | "c = CHR 0x0D" | "c = CHR 0x09"
    | "c \<noteq> dquote" "c \<noteq> backslash" "c \<noteq> CHR 0x08" "c \<noteq> CHR 0x0C" "c \<noteq> CHR 0x0A"
      "c \<noteq> CHR 0x0D" "c \<noteq> CHR 0x09" "(of_char c :: nat) < 32"
    | "c \<noteq> dquote" "c \<noteq> backslash" "\<not> (of_char c :: nat) < 32"
    by fastforce
  then show ?thesis
  proof cases
    case 8
    then have esc: "escape_char c = [backslash, CHR ''u'', CHR ''0'', CHR ''0'',
        hexdigit (of_char c div 16), hexdigit (of_char c mod 16)]"
      by (simp add: escape_char_def)
    have "utf8 (of_char c) = [c]" using 8(8) by (simp add: utf8_def)
    then show ?thesis
      by (simp add: esc control_hex_char [OF 8(8)] dquote_def backslash_def)
  next
    case 9
    then have "escape_char c = [c]"
      by (auto simp: escape_char_def dquote_def backslash_def)
    with 9 show ?thesis by simp
  qed (simp_all add: escape_char_def unescape_def dquote_def backslash_def)
qed

lemma parse_chars_quoted:
  "parse_chars acc (concat (map escape_char s) @ dquote # rest) = Some (rev acc @ s, rest)"
  by (induction s arbitrary: acc) (simp_all add: parse_chars_escape)

lemma skip_ws_nonspace [simp]: "\<not> json_ws c \<Longrightarrow> skip_ws (c # s) = c # s"
  by (simp add: skip_ws_def)

lemma parse_value_quote:
  "parse_value (Suc n) (quote s @ rest) = Some (JStr s, rest)"
  using parse_chars_quoted [of "[]" s rest]
  by (simp add: quote_def json_ws_def dquote_def)

lemma stringify_pair:
  "stringify (JArr [JStr k, JStr v]) @ rest
   = CHR ''['' # quote k @ CHR '','' # quote v @ CHR '']'' # rest"
  by simp

lemma quote_Cons: "quote s = dquote # tl (quote s)"
  by (simp add: quote_def)

lemma skip_ws_bracket [simp]:
  "skip_ws (CHR '']'' # s) = CHR '']'' # s"
  "skip_ws (CHR '','' # s) = CHR '','' # s"
  "skip_ws (CHR ''['' # s) = CHR ''['' # s"
  "skip_ws (dquote # s) = dquote # s"
  by (simp_all add: skip_ws_def json_ws_def dquote_def)

lemma parse_elems_last_string:
  "parse_elems (Suc (Suc n)) acc (quote v @ CHR '']'' # rest)
   = Some (JArr (rev (JStr v # acc)), rest)"
  apply (subst parse_elems.simps(2))
  apply (subst parse_value_quote)
  apply (simp del: parse_value.simps parse_elems.simps)
  done

lemma parse_elems_next_string:
  "parse_elems (Suc (Suc n)) acc (quote k @ CHR '','' # rest)
   = parse_elems (Suc n) (JStr k # acc) rest"
  apply (subst parse_elems.simps(2))
  apply (subst parse_value_quote)
  apply (simp del: parse_value.simps parse_elems.simps)
  done

lemma parse_value_pair:
  "parse_value (Suc (Suc (Suc (Suc n)))) (stringify (JArr [JStr k, JStr v]) @ rest)
   = Some (JArr [JStr k, JStr v], rest)"
proof -
  have "parse_elems (Suc (Suc (Suc n))) [] (quote k @ CHR '','' # quote v @ CHR '']'' # rest)
      = Some (JArr [JStr k, JStr v], rest)"
    by (simp only: parse_elems_next_string parse_elems_last_string rev.simps append_Nil
          append_Cons)
  moreover have "skip_ws (quote k @ CHR '','' # quote v @ CHR '']'' # rest)
      = dquote # (tl (quote k) @ CHR '','' # quote v @ CHR '']'' # rest)"
    by (simp add: quote_def)
  moreover have "dquote \<noteq> CHR '']''" by (simp add: dquote_def)
  ultimately show ?thesis
    unfolding stringify_pair
    apply (subst parse_value.simps(2))
    apply (simp del: parse_value.simps parse_elems.simps)
    done
qed

lemma parse_value_pair_ge:
  "4 \<le> n \<Longrightarrow> parse_value n (stringify (JArr [JStr k, JStr v]) @ rest)
     = Some (JArr [JStr k, JStr v], rest)"
proof -
  assume "4 \<le> n"
  then have "n = Suc (Suc (Suc (Suc (n - 4))))" by simp
  then show ?thesis by (metis parse_value_pair)
qed

lemma parse_value_pair_of:
  "4 \<le> n \<Longrightarrow> parse_value n (stringify (pair_of kv) @ rest) = Some (pair_of kv, rest)"
  unfolding pair_of_def by (rule parse_value_pair_ge)

lemma parse_elems_pairs:
  "kvs \<noteq> [] \<Longrightarrow> length kvs + 4 \<le> n \<Longrightarrow>
     parse_elems n acc (join '','' (map (\<lambda>kv. stringify (pair_of kv)) kvs) @ CHR '']'' # rest)
     = Some (JArr (rev acc @ map pair_of kvs), rest)"
proof (induction kvs arbitrary: n acc)
  case Nil
  then show ?case by simp
next
  case (Cons kv kvs)
  from Cons.prems(2) obtain n' where n: "n = Suc n'" and n': "4 \<le> n'" "length kvs + 4 \<le> n'"
    by (cases n) auto
  show ?case
  proof (cases kvs)
    case Nil
    have "parse_elems (Suc n') acc (stringify (pair_of kv) @ CHR '']'' # rest)
        = Some (JArr (rev (pair_of kv # acc)), rest)"
      apply (subst parse_elems.simps(2))
      apply (subst parse_value_pair_of [OF n'(1)])
      apply (simp del: parse_value.simps parse_elems.simps)
      done
    then show ?thesis
      by (simp add: Nil n del: parse_value.simps parse_elems.simps stringify.simps)
  next
    case (Cons kv' kvs')
    let ?tail = "join '','' (map (\<lambda>kv. stringify (pair_of kv)) kvs) @ CHR '']'' # rest"
    have ih: "parse_elems n' (pair_of kv # acc) ?tail
        = Some (JArr (rev (pair_of kv # acc) @ map pair_of kvs), rest)"
      using Cons n'(2) by (intro Cons.IH) simp_all
    have "parse_elems (Suc n') acc (stringify (pair_of kv) @ CHR '','' # ?tail)
        = parse_elems n' (pair_of kv # acc) ?tail"
      apply (subst parse_elems.simps(2))
      apply (subst parse_value_pair_of [OF n'(1)])
      apply (simp del: parse_value.simps parse_elems.simps stringify.simps)
      done
    with ih show ?thesis
      by (simp add: Cons n del: parse_value.simps parse_elems.simps stringify.simps)
  qed
qed

lemma length_join_ge: "\<forall>x \<in> set xs. x \<noteq> [] \<Longrightarrow> length xs \<le> length (join sep xs)"
proof (induction sep xs rule: join.induct)
  case (3 sep x y ys)
  then have "length (y # ys) \<le> length (join sep (y # ys))" by simp
  moreover from 3 obtain a x' where "x = a # x'" by (cases x) auto
  ultimately show ?case by simp
qed (simp_all add: Suc_le_eq)

lemma entries_pairs:
  "entries (map (\<lambda>kv. (JStr (fst kv), JStr (snd kv))) kvs) = JArr (map pair_of kvs)"
  by (simp add: entries_def pair_of_def)

lemma string_map_pairs:
  "string_map m \<Longrightarrow> \<exists>kvs. m = map (\<lambda>kv. (JStr (fst kv), JStr (snd kv))) kvs"
proof (induction m)
  case Nil
  then show ?case by simp
next
  case (Cons e m)
  then obtain kvs where kvs: "m = map (\<lambda>kv. (JStr (fst kv), JStr (snd kv))) kvs"
    by (auto simp: string_map_def)
  from Cons.prems obtain a b where "e = (JStr a, JStr b)"
    by (cases e; cases "fst e"; cases "snd e") (auto simp: string_map_def)
  with kvs have "e # m = map (\<lambda>kv. (JStr (fst kv), JStr (snd kv))) ((a, b) # kvs)" by simp
  then show ?case by (rule exI)
qed


lemma parse_value_array:
  assumes "items = CHR ''['' # r"
  shows "parse_value (Suc n) (CHR ''['' # items @ rest) = parse_elems n [] (items @ rest)"
  apply (subst parse_value.simps(2))
  apply (simp add: assms del: parse_value.simps parse_elems.simps)
  done

lemma json_parse_entries:
  assumes "string_map m"
  shows "json_parse (stringify (entries m)) = Some (entries m)"
proof -
  from string_map_pairs [OF assms] obtain kvs
    where m: "m = map (\<lambda>kv. (JStr (fst kv), JStr (snd kv))) kvs" by blast
  show ?thesis
  proof (cases "kvs = []")
    case True
    have "json_parse ''[]'' = Some (JArr [])" by code_simp
    with True show ?thesis
      by (simp add: m entries_def)
  next
    case False
    let ?body = "join '','' (map (\<lambda>kv. stringify (pair_of kv)) kvs)"
    let ?text = "CHR ''['' # ?body @ '']''"
    have shape: "stringify (entries m) = ?text"
      by (simp add: m entries_pairs comp_def)
    have "\<forall>x \<in> set (map (\<lambda>kv. stringify (pair_of kv)) kvs). x \<noteq> []"
      by (simp add: pair_of_def)
    from length_join_ge [OF this] have "length kvs \<le> length ?body" by simp
    then have fuel: "length kvs + 4 \<le> 2 * length ?text + 1" by simp
    obtain kv kvs' where kvs: "kvs = kv # kvs'" using False by (cases kvs) auto
    have "\<exists>r. ?body = CHR ''['' # r"
      by (cases kvs') (simp_all add: kvs pair_of_def)
    then obtain r where r: "?body = CHR ''['' # r" by blast
    have elems: "parse_elems (2 * length ?text + 1) [] (?body @ '']'')
        = Some (JArr (map pair_of kvs), [])"
      using parse_elems_pairs [OF False fuel, of "[]" "[]"] by simp
    have "parse_value (Suc (2 * length ?text + 1)) ?text = Some (JArr (map pair_of kvs), [])"
      using parse_value_array [OF r, of "2 * length ?text + 1" "'']''"] elems by simp
    then have "json_parse ?text = Some (JArr (map pair_of kvs))"
      by (simp add: json_parse_def skip_ws_def del: parse_value.simps)
    with shape have "json_parse (stringify (entries m)) = Some (JArr (map pair_of kvs))"
      by simp
    then show ?thesis
      by (simp add: m entries_pairs del: stringify.simps)
  qed
qed

lemma map_set_fresh:
  "k \<notin> fst ` set acc \<Longrightarrow> map_set acc (JStr s) v = acc @ [(JStr s, v)]" if "k = JStr s"
  using that by (induction acc) auto

lemma add_entries_pairs:
  "string_map m \<Longrightarrow> distinct (map fst (acc @ m)) \<Longrightarrow>
     add_entries acc (map (\<lambda>(k, v). JArr [k, v]) m) = Some (acc @ m)"
proof (induction m arbitrary: acc)
  case Nil
  then show ?case by simp
next
  case (Cons e m)
  obtain k v where e: "e = (k, v)" by (cases e)
  from Cons.prems(1) e obtain s where k: "k = JStr s"
    by (cases k) (auto simp: string_map_def)
  from Cons.prems(2) e have fresh: "k \<notin> fst ` set acc" by auto
  have step: "map_set acc k v = acc @ [(k, v)]"
    using map_set_fresh [OF k fresh] k by simp
  from Cons.prems have "string_map m" "distinct (map fst ((acc @ [(k, v)]) @ m))"
    by (auto simp: string_map_def e)
  from Cons.IH [OF this] show ?case
    by (simp add: e step)
qed

lemma new_Map_entries:
  "string_map m \<Longrightarrow> distinct (map fst m) \<Longrightarrow> new_Map (entries m) = Some m"
  using add_entries_pairs [of m "[]"] by (simp add: entries_def)

lemma loadState_text:
  assumes "stateFilePath w = Some p" and "existsSync (disk w) p"
    and "readFile (disk w) p = Some text"
  shows "loadState w =
     (case json_parse text of
        None \<Rightarrow> load_failed w
      | Some parsed \<Rightarrow>
          (case new_Map parsed of
             None \<Rightarrow> load_failed w
           | Some m \<Rightarrow> w\<lparr>fileStates := m, fired := fired w @ [ []]\<rparr>))"
  using assms by (simp add: loadState_def)

text \<open>
  Claim C6. When there is a state file path and the write succeeds, \<open>saveState\<close> writes
  the serialised map to the state file, and \<open>loadState\<close>, run on that disk by a manager
  that holds any map \<open>m0\<close> whatever (the empty map of a new manager, the saved map, or
  any other), replaces \<open>m0\<close> by the map that was saved. This holds for every saved map
  of strings without duplicate keys, the empty map included: after the load the effective
  policy of every path is the one of the saved map, no error is shown, and the empty path
  set is fired.
\<close>

theorem save_load_roundtrip:
  assumes "stateFilePath w = Some p"
    and "try_save (disk w) p (stringify (entries (fileStates w))) = Some fs'"
    and "string_map (fileStates w)"
    and "distinct (map fst (fileStates w))"
  shows "readFile (disk (saveState w)) p = Some (stringify (entries (fileStates w)))
       \<and> fileStates (loadState ((saveState w)\<lparr>fileStates := m0\<rparr>)) = fileStates w
       \<and> (\<forall>uri. getState (fileStates (loadState ((saveState w)\<lparr>fileStates := m0\<rparr>))) uri
                = getState (fileStates w) uri)
       \<and> shown (loadState ((saveState w)\<lparr>fileStates := m0\<rparr>)) = shown w
       \<and> fired (loadState ((saveState w)\<lparr>fileStates := m0\<rparr>)) = fired w @ [ []]"
proof -
  let ?text = "stringify (entries (fileStates w))"
  let ?w0 = "w\<lparr>disk := fs', fileStates := m0\<rparr>"
  have saved: "saveState w = w\<lparr>disk := fs'\<rparr>"
    using assms(1,2) by (simp add: saveState_def)
  from try_save_readFile [OF assms(2)]
  have written: "readFile fs' p = Some ?text" "existsSync fs' p" by simp_all
  have "loadState ?w0 = ?w0\<lparr>fileStates := fileStates w, fired := fired w @ [ []]\<rparr>"
    using assms(1) written
    by (subst loadState_text [of _ p ?text])
      (simp_all add: json_parse_entries [OF assms(3)] new_Map_entries [OF assms(3,4)])
  then show ?thesis by (simp add: saved written)
qed

text \<open>
  Claim C7, as amended. Loading a state file resets the map to empty and shows the error
  when the text is not JSON or the parsed value cannot be made into a \<open>Map\<close>. A file
  that is the serialisation of any list of string pairs with distinct keys is loaded as it
  is, whatever its policy tags are: no tag is checked.
\<close>

theorem load_accepts_any_tag:
  assumes "stateFilePath w = Some p" and "existsSync (disk w) p"
    and "readFile (disk w) p = Some text"
  shows "(json_parse text = None \<longrightarrow>
            fileStates (loadState w) = []
          \<and> shown (loadState w)
              = shown w @ [''Lollms: Could not load context state from .lollms folder.'']
          \<and> fired (loadState w) = fired w)
       \<and> (\<forall>parsed. json_parse text = Some parsed \<and> new_Map parsed = None \<longrightarrow>
            fileStates (loadState w) = []
          \<and> shown (loadState w)
              = shown w @ [''Lollms: Could not load context state from .lollms folder.'']
          \<and> fired (loadState w) = fired w)
       \<and> (\<forall>m. string_map m \<and> distinct (map fst m) \<and> text = stringify (entries m) \<longrightarrow>
            fileStates (loadState w) = m
          \<and> shown (loadState w) = shown w
          \<and> fired (loadState w) = fired w @ [ []])"
  by (auto simp: loadState_text [OF assms] load_failed_def json_parse_entries new_Map_entries)

section \<open>Witnesses and counterexamples\<close>

lemma not_is_none_obtain: "\<not> Option.is_none x \<Longrightarrow> \<exists>y. x = Some y"
  by (cases x) simp_all

text \<open>The cycle of claim C3 on the file \<open>/w/a.txt\<close> of the example workspace.\<close>

theorem cycle_file_three_states_witness:
  "stat (disk demo_world) [''w'', ''a.txt''] = Some File
   \<and> map_get (fileStates demo_world) (key [''w'', ''a.txt'']) = JUndefined
   \<and> (\<exists>w1 w2 w3.
          cycleState 0 demo_world [''w'', ''a.txt''] = Some w1
        \<and> cycleState 0 w1 [''w'', ''a.txt''] = Some w2
        \<and> cycleState 0 w2 [''w'', ''a.txt''] = Some w3
        \<and> map_get (fileStates w1) (key [''w'', ''a.txt'']) = JStr ''fullContent''
        \<and> map_get (fileStates w2) (key [''w'', ''a.txt'']) = JStr ''signatures''
        \<and> map_get (fileStates w3) (key [''w'', ''a.txt'']) = JUndefined)"
proof -
  have isfile: "stat (disk demo_world) [''w'', ''a.txt''] = Some File"
    by (simp add: demo_world_def demo_fs_def)
  have none: "map_get (fileStates demo_world) (key [''w'', ''a.txt'']) = JUndefined"
    by (simp add: demo_world_def)
  from cycle_file_three_states [OF isfile, of 0] none isfile show ?thesis
    by fastforce
qed

text \<open>
  Claim C3 as stated fails for a directory: cycling \<open>/w/b\<close>, which has no entry, leaves
  it without an entry (it does not become \<open>fullContent\<close>) and marks the file beneath it.
\<close>

theorem cycle_directory_counterexample:
  "stat (disk demo_world) [''w'', ''b''] = Some Directory
   \<and> map_get (fileStates demo_world) (key [''w'', ''b'']) = JUndefined
   \<and> map_option fileStates (cycleState 1 demo_world [''w'', ''b''])
       = Some [(JStr ''file:///w/b/c.txt'', JStr ''fullContent'')]"
  by code_simp


text \<open>
  A directory named \<open>constructor\<close>, or a file named \<open>__proto__\<close>, takes \<open>reduce\<close> out of
  the tree.
\<close>

lemma inherited_names_leave_the_tree:
  "build_tree pristine [ [''w'', ''constructor'', ''x.txt'']] [''w''] = None
   \<and> build_tree pristine [ [''w'', ''a.txt''], [''w'', ''__proto__'']] [''w''] = None
   \<and> build_tree pristine [ [''w'', ''a.txt'']] [''w''] = Some (Level [(''a.txt'', Level [])])"
  by code_simp


text \<open>
  Claim C5 fails on the code: for the files \<open>a.txt\<close> and \<open>b/c.txt\<close> the tree lists the
  file \<open>a.txt\<close> before the directory \<open>b\<close>; the keys of a level are sorted as strings,
  files and directories alike.
\<close>

theorem tree_lists_file_before_directory:
  "generateMarkdownTreeFromUris pristine [] None
     [ [''w'', ''a.txt''], [''w'', ''b'', ''c.txt'']] [''w'']
   = Some (join ''\<newline>''
       [folder_icon @ '' w/'',
        mid_prefix @ file_icon @ '' a.txt'',
        last_prefix @ folder_icon @ '' b'',
        ''   '' @ last_prefix @ file_icon @ '' c.txt''])"
  by code_simp

text \<open>
  The round trip of claim C6 on a map with two entries and on the empty map, each loaded
  by a manager that holds another map.
\<close>

theorem save_load_roundtrip_witness:
  "stateFilePath marked_world = Some state_path
   \<and> \<not> Option.is_none
        (try_save (disk marked_world) state_path (stringify (entries (fileStates marked_world))))
   \<and> string_map (fileStates marked_world)
   \<and> distinct (map fst (fileStates marked_world))
   \<and> fileStates (loadState ((saveState marked_world)
        \<lparr>fileStates := [(JStr ''file:///w/a.txt'', JStr ''signatures'')]\<rparr>))
       = [(JStr ''file:///w/a.txt'', JStr ''fullContent''),
          (JStr ''file:///w/b/c.txt'', JStr ''excluded'')]
   \<and> getState (fileStates (loadState ((saveState marked_world)
        \<lparr>fileStates := [(JStr ''file:///w/a.txt'', JStr ''signatures'')]\<rparr>)))
        [''w'', ''a.txt'']
       = JStr ''fullContent''
   \<and> stateFilePath demo_world = Some state_path
   \<and> \<not> Option.is_none
        (try_save (disk demo_world) state_path (stringify (entries (fileStates demo_world))))
   \<and> string_map (fileStates demo_world)
   \<and> distinct (map fst (fileStates demo_world))
   \<and> fileStates (loadState ((saveState demo_world)
        \<lparr>fileStates := [(JStr ''file:///w/a.txt'', JStr ''signatures'')]\<rparr>))
       = []"
proof -
  have p: "stateFilePath marked_world = Some state_path"
    by (simp add: marked_world_def demo_world_def)
  have saved: "\<not> Option.is_none
      (try_save (disk marked_world) state_path (stringify (entries (fileStates marked_world))))"
    by code_simp
  then obtain fs' where fs': "try_save (disk marked_world) state_path
      (stringify (entries (fileStates marked_world))) = Some fs'"
    by (auto dest: not_is_none_obtain)
  have strs: "string_map (fileStates marked_world)"
    by (simp add: marked_world_def string_map_def)
  have dist: "distinct (map fst (fileStates marked_world))"
    by (simp add: marked_world_def)
  have a: "getState (fileStates marked_world) [''w'', ''a.txt''] = JStr ''fullContent''"
    by code_simp
  have p0: "stateFilePath demo_world = Some state_path"
    by (simp add: demo_world_def)
  have saved0: "\<not> Option.is_none
      (try_save (disk demo_world) state_path (stringify (entries (fileStates demo_world))))"
    by code_simp
  then obtain fs0 where fs0: "try_save (disk demo_world) state_path
      (stringify (entries (fileStates demo_world))) = Some fs0"
    by (auto dest: not_is_none_obtain)
  have strs0: "string_map (fileStates demo_world)"
    by (simp add: demo_world_def string_map_def)
  have dist0: "distinct (map fst (fileStates demo_world))"
    by (simp add: demo_world_def)
  have empty: "fileStates demo_world = []"
    by (simp add: demo_world_def)
  from save_load_roundtrip [OF p fs' strs dist,
      of "[(JStr ''file:///w/a.txt'', JStr ''signatures'')]"]
  have full: "fileStates (loadState ((saveState marked_world)
        \<lparr>fileStates := [(JStr ''file:///w/a.txt'', JStr ''signatures'')]\<rparr>))
       = [(JStr ''file:///w/a.txt'', JStr ''fullContent''),
          (JStr ''file:///w/b/c.txt'', JStr ''excluded'')]"
    "getState (fileStates (loadState ((saveState marked_world)
        \<lparr>fileStates := [(JStr ''file:///w/a.txt'', JStr ''signatures'')]\<rparr>)))
        [''w'', ''a.txt'']
       = JStr ''fullContent''"
    using a by (simp_all add: marked_world_def)
  from save_load_roundtrip [OF p0 fs0 strs0 dist0,
      of "[(JStr ''file:///w/a.txt'', JStr ''signatures'')]"]
  have none: "fileStates (loadState ((saveState demo_world)
        \<lparr>fileStates := [(JStr ''file:///w/a.txt'', JStr ''signatures'')]\<rparr>)) = []"
    using empty by simp
  from p saved strs dist full p0 saved0 strs0 dist0 none show ?thesis
    by blast
qed

text \<open>Claim C7 as amended, on a state file that is not JSON.\<close>

theorem load_accepts_any_tag_witness:
  "stateFilePath (with_state_file ''[ ['') = Some state_path
   \<and> existsSync (disk (with_state_file ''[ ['')) state_path
   \<and> readFile (disk (with_state_file ''[ ['')) state_path = Some ''[ [''
   \<and> json_parse ''[ ['' = None
   \<and> fileStates (loadState (with_state_file ''[ ['')) = []
   \<and> shown (loadState (with_state_file ''[ [''))
       = [''Lollms: Could not load context state from .lollms folder.'']"
proof -
  have p: "stateFilePath (with_state_file ''[ ['') = Some state_path"
    by (simp add: with_state_file_def demo_world_def)
  have ex: "existsSync (disk (with_state_file ''[ ['')) state_path"
    by (simp add: with_state_file_def existsSync_def)
  have rd: "readFile (disk (with_state_file ''[ ['')) state_path = Some ''[ [''"
    by (simp add: with_state_file_def)
  have bad: "json_parse ''[ ['' = None" by code_simp
  have "shown (with_state_file ''[ ['') = []"
    by (simp add: with_state_file_def demo_world_def)
  with load_accepts_any_tag [OF p ex rd] p ex rd bad show ?thesis by simp
qed

text \<open>
  Claim C7 as stated fails: a state file with the tag \<open>bogus\<close> is loaded without an error,
  and \<open>bogus\<close> becomes the policy of the path.
\<close>

theorem load_unknown_tag_counterexample:
  \<open>stateFilePath (with_state_file ''[ ["file:///w/a.txt","bogus"]]'') = Some state_path
   \<and> readFile (disk (with_state_file ''[ ["file:///w/a.txt","bogus"]]'')) state_path
       = Some ''[ ["file:///w/a.txt","bogus"]]''
   \<and> fileStates (loadState (with_state_file ''[ ["file:///w/a.txt","bogus"]]''))
       = [(JStr ''file:///w/a.txt'', JStr ''bogus'')]
   \<and> shown (loadState (with_state_file ''[ ["file:///w/a.txt","bogus"]]'')) = []
   \<and> getState (fileStates (loadState (with_state_file ''[ ["file:///w/a.txt","bogus"]]'')))
        [''w'', ''a.txt''] = JStr ''bogus''\<close>
  by code_simp

text \<open>Claim C9 on the directory \<open>/w/b\<close> of the example workspace.\<close>

theorem setState_writes_file_keys_witness:
  "\<exists>w'. setState 1 demo_world [ [''w'', ''b'']] Excluded = Some w'
     \<and> fired w' = [ [ [''w'', ''b'', ''c.txt'']]]
     \<and> stat (disk demo_world) [''w'', ''b'', ''c.txt''] = Some File
     \<and> map_get (fileStates w') (key [''w'', ''b'', ''c.txt'']) = JStr ''excluded''
     \<and> map_get (fileStates w') (key [''w'', ''b'']) = JUndefined"
proof -
  have "\<not> Option.is_none (setState 1 demo_world [ [''w'', ''b'']] Excluded)" by code_simp
  then obtain w' where set: "setState 1 demo_world [ [''w'', ''b'']] Excluded = Some w'"
    by (auto dest: not_is_none_obtain)
  have files: "getAllFileUris 1 (disk demo_world) [ [''w'', ''b'']] = Some [ [''w'', ''b'', ''c.txt'']]"
    by code_simp
  have diff: "key [''w'', ''b''] \<noteq> key [''w'', ''b'', ''c.txt'']"
    by (simp add: key_def uri_toString_def fsPath_def)
  have start: "fired demo_world = []" "fileStates demo_world = []"
    by (simp_all add: demo_world_def)
  from setState_writes_file_keys [OF set] files diff start
  have "fired w' = [ [ [''w'', ''b'', ''c.txt'']]]
      \<and> stat (disk demo_world) [''w'', ''b'', ''c.txt''] = Some File
      \<and> map_get (fileStates w') (key [''w'', ''b'', ''c.txt'']) = JStr ''excluded''
      \<and> map_get (fileStates w') (key [''w'', ''b'']) = JUndefined"
    by auto
  with set show ?thesis by blast
qed

text \<open>Claim C10 on a path that does not exist.\<close>

theorem setState_nothing_statable_witness:
  "stat (disk demo_world) [''nowhere''] = None
   \<and> (\<exists>w'. setState 0 demo_world [ [''nowhere'']] FullContent = Some w'
          \<and> fileStates w' = []
          \<and> fired w' = [ []]
          \<and> readFile (disk w') state_path = Some ''[]'')"
proof -
  have gone: "stat (disk demo_world) [''nowhere''] = None"
    by (simp add: demo_world_def demo_fs_def)
  then have all: "\<forall>u \<in> set [ [''nowhere'']]. stat (disk demo_world) u = None" by simp
  have "\<not> Option.is_none (try_save (disk demo_world) state_path
      (stringify (entries (fileStates demo_world))))"
    by code_simp
  then obtain fs' where saved: "try_save (disk demo_world) state_path
      (stringify (entries (fileStates demo_world))) = Some fs'"
    by (auto dest: not_is_none_obtain)
  have start: "fired demo_world = []" "fileStates demo_world = []"
    "stateFilePath demo_world = Some state_path"
    by (simp_all add: demo_world_def)
  have empty: "stringify (entries []) = ''[]''" by (simp add: entries_def)
  from setState_nothing_statable [OF all, of 0 FullContent] saved start empty gone
  show ?thesis by fastforce
qed

end
